theory Spec2Isabelle
  imports Main "HOL-Library.Word" "HOL-Library.Signed_Division"
begin

section \<open>The synthetic column generators of prelim.cc\<close>

text \<open>
  A shallow embedding of \<^verbatim>\<open>src/profiling/parquet-cpp/prelim.cc\<close>: the two
  variable-bit-width generators \<^verbatim>\<open>generate_int64_delta_varied_bit_width_table\<close> and
  \<^verbatim>\<open>generate_int32_delta_varied_bit_width_table\<close>, the text written to their sidecar
  files, and the argument check of \<^verbatim>\<open>main\<close>.

  Conventions.
  \<^item> \<^verbatim>\<open>int64_t\<close>, \<^verbatim>\<open>uint64_t\<close> are \<open>64 word\<close>, \<^verbatim>\<open>int\<close>, \<^verbatim>\<open>unsigned\<close> stored in a
    variable are \<open>32 word\<close>: a conversion between the signed and the unsigned type of one
    width keeps the bits, \<open>unat\<close> reads a word as unsigned, \<open>sint\<close> as two's complement.
  \<^item> The loop counter \<^verbatim>\<open>i\<close>, \<^verbatim>\<open>num_values\<close> and \<^verbatim>\<open>run_length\<close> are HOL integers: the
    counter runs from 0 and stays below \<^verbatim>\<open>num_values\<close>, so \<^verbatim>\<open>i++\<close> never wraps.
  \<^item> What the C++ standard leaves undefined and an argument can reach (a remainder by
    zero, the overflow of an \<^verbatim>\<open>int\<close> counter) and what the source throws
    (\<^verbatim>\<open>PARQUET_THROW_NOT_OK\<close>, on a failed \<^verbatim>\<open>Append\<close> or a failed write of the Parquet
    file) are values of \<open>error\<close>.
\<close>

datatype error = DivisionByZero | OutOfMemory | WriteFailed | IntegerOverflow

subsection \<open>What the generators read from outside\<close>

text \<open>
  The random sources, the memory pool, the files and the C++ runtime are not code of this
  file; they are fields of the environment.
  \<^item> \<open>random_device\<close>: the value \<^verbatim>\<open>std::random_device{}()\<close> returns (an \<^verbatim>\<open>unsigned int\<close>).
  \<^item> \<open>mt19937_64 seed k\<close>: the \<open>k\<close>-th output (from 0) of a \<^verbatim>\<open>std::mt19937_64\<close>
    constructed from \<open>seed\<close>.
  \<^item> \<open>rand k\<close>: what the \<open>k\<close>-th call (from 0) of the C library's \<^verbatim>\<open>rand()\<close> returns in
    this process. \<^verbatim>\<open>rand()\<close> returns an \<^verbatim>\<open>int\<close> between 0 and \<^verbatim>\<open>RAND_MAX\<close>, so between 0
    and \<open>2^31 - 1\<close> (which is \<^verbatim>\<open>RAND_MAX\<close> itself with glibc): a 31-bit value.
  \<^item> \<open>pool_capacity\<close>: how many values the builder can hold before \<^verbatim>\<open>Append\<close> returns a
    status that is not OK (an allocation of the memory pool fails).
  \<^item> \<open>atoi\<close>: the C library's \<^verbatim>\<open>atoi\<close>.
  \<^item> \<open>WriteTable\<close>: whether the Parquet library opens the output file and writes the
    column to it.
  \<^item> \<open>ofstream name\<close>: what becomes of a \<^verbatim>\<open>std::ofstream\<close> opened on the file \<open>name\<close>. The
    source checks neither the opening nor a write: a stream that could not be opened, or
    on which a write has failed, ignores what is sent to it, and the function goes on.
  \<^item> \<open>uncaught err\<close>: what the C++ runtime writes to standard error when the run ends in
    \<open>err\<close> (an exception that leaves \<^verbatim>\<open>main\<close> reaches \<^verbatim>\<open>std::terminate\<close>).
\<close>

datatype medium =
    CannotOpen \<comment> \<open>the file cannot be opened: nothing is written\<close>
  | TakesUpTo nat \<comment> \<open>the file opens; the writes fail after so many characters\<close>
  | TakesAll \<comment> \<open>the file opens and every write of the call succeeds\<close>

record env =
  random_device :: "32 word"
  mt19937_64 :: "64 word \<Rightarrow> nat \<Rightarrow> 64 word"
  rand :: "nat \<Rightarrow> 31 word"
  pool_capacity :: nat
  atoi :: "string \<Rightarrow> int"
  WriteTable :: "64 word list \<Rightarrow> bool"
  ofstream :: "string \<Rightarrow> medium"
  uncaught :: "error \<Rightarrow> string"

subsection \<open>Text written by the output streams\<close>

definition endl :: char where
  "endl = CHR 0x0A"

text \<open>Decimal digits of a natural number, most significant first.\<close>

fun dec_digits :: "nat \<Rightarrow> string" where
  "dec_digits n =
     (if n < 10 then [char_of (48 + n)]
      else dec_digits (n div 10) @ [char_of (48 + n mod 10)])"

declare dec_digits.simps [simp del]

text \<open>\<^verbatim>\<open>stream << number\<close> for a signed integer in the default (decimal) base.\<close>

definition show_dec :: "int \<Rightarrow> string" where
  "show_dec k = (if k < 0 then CHR ''-'' # dec_digits (nat (- k)) else dec_digits (nat k))"

text \<open>Hexadecimal digits, lower case, most significant first.\<close>

definition hex_digit :: "nat \<Rightarrow> char" where
  "hex_digit d = (if d < 10 then char_of (48 + d) else char_of (87 + d))"

fun hex_digits :: "nat \<Rightarrow> string" where
  "hex_digits n =
     (if n < 16 then [hex_digit n]
      else hex_digits (n div 16) @ [hex_digit (n mod 16)])"

declare hex_digits.simps [simp del]

text \<open>
  \<^verbatim>\<open>std::setfill(c)\<close> with \<^verbatim>\<open>std::setw(w)\<close>: a field shorter than \<open>w\<close> is filled on the
  left up to \<open>w\<close> characters; a longer one is written whole (the width is a minimum).
\<close>

definition setw_setfill :: "nat \<Rightarrow> char \<Rightarrow> string \<Rightarrow> string" where
  "setw_setfill w c s = replicate (w - length s) c @ s"

text \<open>
  \<^verbatim>\<open>stream << std::hex << std::setfill('0') << std::setw(8) << number\<close>: in base 16 a signed
  integer is written as the unsigned value of its bits.
\<close>

definition show_hex8 :: "'a::len word \<Rightarrow> string" where
  "show_hex8 w = setw_setfill 8 (CHR ''0'') (hex_digits (unat w))"

text \<open>The bytes of a value in the array's buffer, least significant first.\<close>

definition buffer_bytes :: "'a::len word \<Rightarrow> 8 word list" where
  "buffer_bytes w = map (\<lambda>k. ucast (drop_bit (8 * k) w)) [0..<LENGTH('a) div 8]"

subsection \<open>The counting loop\<close>

text \<open>
  \<^verbatim>\<open>for (int i = 0; i < num_values; i++) body\<close>, from any start \<open>i\<close>; an error in the
  body ends the loop.
\<close>

function for_loop :: "int \<Rightarrow> int \<Rightarrow> (int \<Rightarrow> 's \<Rightarrow> error + 's) \<Rightarrow> 's \<Rightarrow> error + 's" where
  "for_loop i n body s =
     (if i < n then
        (case body i s of Inl e \<Rightarrow> Inl e | Inr s' \<Rightarrow> for_loop (i + 1) n body s')
      else Inr s)"
  by pat_completeness auto
termination
  by (relation "measure (\<lambda>(i, n, body, s). nat (n - i))") auto

declare for_loop.simps [simp del]

subsection \<open>The variables of a generator\<close>

text \<open>
  The local variables of one generator call, for a column of values of type \<open>'w\<close>.
  \<open>calls\<close> counts the calls of the random source made so far. \<open>modulo_log\<close> is not a
  variable of the source: it notes, for every iteration, whether the iteration assigned
  \<open>modulo\<close> and the value of \<open>modulo\<close> the iteration used (what the line
  \<^verbatim>\<open>//std::cout<<modulo<<" "<<...<<number\<close> would print); nothing reads it.
\<close>

record 'w locals =
  modulo :: 'w
  number :: 'w
  calls :: nat
  builder :: "'w list"
  dec_check_file :: string
  hex_check_file :: string
  modulo_log :: "(bool \<times> 'w) list"

text \<open>\<^verbatim>\<open>PARQUET_THROW_NOT_OK(builder.Append(number))\<close>\<close>

definition Append :: "env \<Rightarrow> 'w locals \<Rightarrow> error + 'w locals" where
  "Append e s =
     (if pool_capacity e \<le> length (builder s) then Inl OutOfMemory
      else Inr (s\<lparr>builder := builder s @ [number s]\<rparr>))"

text \<open>
  What a generator returns: the values of the one column of the table, what the call has
  sent to each of its three streams (nothing when \<^verbatim>\<open>write_to_file\<close> is false), and the log
  of the moduli. The schema (one non-nullable field \<^verbatim>\<open>"int"\<close>) is the same for every call
  and left out.
\<close>

record 'w table =
  column :: "'w list"
  check_file :: "8 word list"
  dec_file :: string
  hex_file :: string
  moduli :: "(bool \<times> 'w) list"

text \<open>
  What a stream leaves on the disk of what was sent to it: no file when it could not be
  opened, and otherwise the part sent before the first write that failed (after a failed
  write the stream takes nothing more). Opening empties the file, so an opened stream to
  which nothing is sent leaves an empty file.
\<close>

definition on_disk :: "medium \<Rightarrow> 'a list \<Rightarrow> 'a list option" where
  "on_disk m sent =
     (case m of CannotOpen \<Rightarrow> None | TakesUpTo c \<Rightarrow> Some (take c sent) | TakesAll \<Rightarrow> Some sent)"

text \<open>
  \<^verbatim>\<open>if(write_to_file){ file.open(name); }\<close> ... \<^verbatim>\<open>if(write_to_file){ file << ...; }\<close>: the
  file \<open>name\<close> after a call that sent \<open>sent\<close> to its stream; without \<^verbatim>\<open>write_to_file\<close>
  the call does not open it.
\<close>

definition sidecar :: "env \<Rightarrow> bool \<Rightarrow> string \<Rightarrow> 'a list \<Rightarrow> 'a list option" where
  "sidecar e write_to_file name sent =
     (if write_to_file then on_disk (ofstream e name) sent else None)"

record files =
  bin_on_disk :: "8 word list option"
  dec_on_disk :: "string option"
  hex_on_disk :: "string option"

subsection \<open>generate\_int64\_delta\_varied\_bit\_width\_table\<close>

text \<open>\<^verbatim>\<open>std::mt19937_64 gen(std::random_device{}())\<close>: the \<open>k\<close>-th value of \<^verbatim>\<open>gen()\<close>.\<close>

definition gen :: "env \<Rightarrow> nat \<Rightarrow> 64 word" where
  "gen e k = mt19937_64 e (ucast (random_device e)) k"

text \<open>
  \<^verbatim>\<open>1ULL << (gen() % 64)\<close> for the draw \<open>d\<close>: \<^verbatim>\<open>gen()\<close> is unsigned, so is the remainder.
\<close>

definition draw_modulo64 :: "64 word \<Rightarrow> 64 word" where
  "draw_modulo64 d = push_bit (unat (d mod 64)) 1"

text \<open>
  \<^verbatim>\<open>if((i%run_length) == 0){ modulo = 1ULL << (gen() % 64); }\<close>
  The remainder of two \<^verbatim>\<open>int\<close>s truncates towards zero (\<open>smod\<close>) and is undefined for
  \<^verbatim>\<open>run_length == 0\<close>.
\<close>

definition schedule64 :: "env \<Rightarrow> int \<Rightarrow> int \<Rightarrow> 64 word locals \<Rightarrow> error + 64 word locals" where
  "schedule64 e run_length i s =
     (if run_length = 0 then Inl DivisionByZero
      else if i smod run_length = 0
        then Inr (s\<lparr>modulo := draw_modulo64 (gen e (calls s)), calls := calls s + 1,
                    modulo_log := modulo_log s @ [(True, draw_modulo64 (gen e (calls s)))]\<rparr>)
        else Inr (s\<lparr>modulo_log := modulo_log s @ [(False, modulo s)]\<rparr>))"

text \<open>
  \<^verbatim>\<open>number = gen() % modulo;\<close>
  \<^verbatim>\<open>gen()\<close> is a \<^verbatim>\<open>uint64_t\<close> and \<^verbatim>\<open>modulo\<close> an \<^verbatim>\<open>int64_t\<close>: \<^verbatim>\<open>modulo\<close> is converted to
  \<^verbatim>\<open>uint64_t\<close> and the remainder is the unsigned one, which is \<open>mod\<close> on words. It is
  undefined for \<^verbatim>\<open>modulo == 0\<close>.
\<close>

definition emit64 :: "env \<Rightarrow> 64 word locals \<Rightarrow> error + 64 word locals" where
  "emit64 e s =
     (if modulo s = 0 then Inl DivisionByZero
      else Inr (s\<lparr>number := gen e (calls s) mod modulo s, calls := calls s + 1\<rparr>))"

text \<open>
  \<^verbatim>\<open>if(write_to_file){ dec_check_file << number << std::endl;\<close>
  \<^verbatim>\<open>hex_check_file << std::hex << std::setfill('0') << std::setw(8) << number << std::dec << std::endl; }\<close>
\<close>

text \<open>
  This is what is sent to the two streams. The source does not look at the state of a
  stream; what reaches the files is given by \<open>sidecar\<close>.
\<close>

definition record_lines :: "bool \<Rightarrow> 'a::len word locals \<Rightarrow> 'a word locals" where
  "record_lines write_to_file s =
     (if write_to_file
      then s\<lparr>dec_check_file := dec_check_file s @ show_dec (sint (number s)) @ [endl],
             hex_check_file := hex_check_file s @ show_hex8 (number s) @ [endl]\<rparr>
      else s)"

definition body64 :: "env \<Rightarrow> int \<Rightarrow> bool \<Rightarrow> int \<Rightarrow> 64 word locals \<Rightarrow> error + 64 word locals" where
  "body64 e run_length write_to_file i s =
     (case schedule64 e run_length i s of Inl err \<Rightarrow> Inl err | Inr s1 \<Rightarrow>
       (case emit64 e s1 of Inl err \<Rightarrow> Inl err | Inr s2 \<Rightarrow>
         (case Append e s2 of Inl err \<Rightarrow> Inl err | Inr s3 \<Rightarrow>
            Inr (record_lines write_to_file s3))))"

text \<open>The variables before the loop: \<^verbatim>\<open>modulo = 0\<close>, nothing drawn, appended or written.\<close>

definition init :: "nat \<Rightarrow> 'a::len word locals" where
  "init c = \<lparr>modulo = 0, number = 0, calls = c, builder = [],
             dec_check_file = [], hex_check_file = [], modulo_log = []\<rparr>"

text \<open>
  After the loop \<^verbatim>\<open>Finish\<close> makes the array of the appended values (it is taken to
  succeed when every \<^verbatim>\<open>Append\<close> did). Its buffer \<^verbatim>\<open>buffers[1]\<close> holds the bytes of the
  values, one value after the other.
\<close>

definition array_buffer :: "'a::len word list \<Rightarrow> 8 word list" where
  "array_buffer vs = concat (map buffer_bytes vs)"

text \<open>
  \<^verbatim>\<open>for(int i=0; i<array->data()->buffers[1]->size(); i++){ check_file << ...->data()[i]; }\<close>
  The size is an \<^verbatim>\<open>int64_t\<close> and the counter an \<^verbatim>\<open>int\<close>: in a buffer of more than
  \<open>2^31 - 1\<close> bytes the counter reaches \<^verbatim>\<open>INT_MAX\<close>, and \<^verbatim>\<open>i++\<close> is then undefined.
\<close>

function byte_loop :: "int \<Rightarrow> 8 word list \<Rightarrow> 8 word list \<Rightarrow> error + 8 word list" where
  "byte_loop i buffer sent =
     (if i < int (length buffer) then
        (if i = 2147483647 then Inl IntegerOverflow
         else byte_loop (i + 1) buffer (sent @ [buffer ! nat i]))
      else Inr sent)"
  by pat_completeness auto
termination
  by (relation "measure (\<lambda>(i, buffer, sent). nat (int (length buffer) - i))") auto

declare byte_loop.simps [simp del]

text \<open>
  \<^verbatim>\<open>if(write_to_file){ for(...){...} check_file.close(); ... }\<close>
  \<^verbatim>\<open>return arrow::Table::Make(schema, {array});\<close>
\<close>

definition finish :: "bool \<Rightarrow> 'a::len word locals \<Rightarrow> error + 'a word table" where
  "finish write_to_file s =
     (if write_to_file then
        (case byte_loop 0 (array_buffer (builder s)) [] of
           Inl err \<Rightarrow> Inl err
         | Inr bytes \<Rightarrow>
             Inr \<lparr>column = builder s, check_file = bytes, dec_file = dec_check_file s,
                  hex_file = hex_check_file s, moduli = modulo_log s\<rparr>)
      else
        Inr \<lparr>column = builder s, check_file = [], dec_file = dec_check_file s,
             hex_file = hex_check_file s, moduli = modulo_log s\<rparr>)"

definition generate_int64_delta_varied_bit_width_table ::
    "env \<Rightarrow> int \<Rightarrow> int \<Rightarrow> bool \<Rightarrow> error + 64 word table" where
  "generate_int64_delta_varied_bit_width_table e num_values run_length write_to_file =
     (case for_loop 0 num_values (body64 e run_length write_to_file) (init 0) of
        Inl err \<Rightarrow> Inl err
      | Inr s \<Rightarrow> finish write_to_file s)"

text \<open>
  The three files of the call: \<^verbatim>\<open>check_file.open("delta_varied_int64array.bin")\<close>, ...
\<close>

definition files_int64 :: "env \<Rightarrow> bool \<Rightarrow> 64 word table \<Rightarrow> files" where
  "files_int64 e write_to_file t =
     \<lparr>bin_on_disk = sidecar e write_to_file ''delta_varied_int64array.bin'' (check_file t),
      dec_on_disk = sidecar e write_to_file ''delta_varied_int64array.dec'' (dec_file t),
      hex_on_disk = sidecar e write_to_file ''delta_varied_int64array.hex'' (hex_file t)\<rparr>"

subsection \<open>generate\_int32\_delta\_varied\_bit\_width\_table\<close>

text \<open>
  \<^verbatim>\<open>1U << (rand() % 32)\<close> for the result \<open>r\<close> of \<^verbatim>\<open>rand()\<close>: the remainder of two
  \<^verbatim>\<open>int\<close>s, then a shift of the \<^verbatim>\<open>unsigned\<close> 1.
\<close>

definition draw_modulo32 :: "31 word \<Rightarrow> 32 word" where
  "draw_modulo32 r = push_bit (nat (uint r smod 32)) 1"

text \<open>
  \<^verbatim>\<open>if((i%run_length) == 0){ modulo = 1U << (rand() % 32); }\<close>
  The \<^verbatim>\<open>unsigned\<close> value is stored in the \<^verbatim>\<open>int modulo\<close>: the bits are kept.
\<close>

definition schedule32 :: "env \<Rightarrow> int \<Rightarrow> int \<Rightarrow> 32 word locals \<Rightarrow> error + 32 word locals" where
  "schedule32 e run_length i s =
     (if run_length = 0 then Inl DivisionByZero
      else if i smod run_length = 0
        then Inr (s\<lparr>modulo := draw_modulo32 (rand e (calls s)), calls := calls s + 1,
                    modulo_log := modulo_log s @ [(True, draw_modulo32 (rand e (calls s)))]\<rparr>)
        else Inr (s\<lparr>modulo_log := modulo_log s @ [(False, modulo s)]\<rparr>))"

text \<open>
  \<^verbatim>\<open>number = rand() % modulo;\<close>
  Both operands are \<^verbatim>\<open>int\<close>: the remainder is the signed one, which truncates towards
  zero, of \<^verbatim>\<open>rand()\<close> and the two's complement value of \<^verbatim>\<open>modulo\<close>. It is undefined
  for \<^verbatim>\<open>modulo == 0\<close>. (Its other undefined case, \<^verbatim>\<open>INT_MIN % -1\<close>, needs a negative
  left operand, which \<^verbatim>\<open>rand()\<close> never is.)
\<close>

definition emit32 :: "env \<Rightarrow> 32 word locals \<Rightarrow> error + 32 word locals" where
  "emit32 e s =
     (if modulo s = 0 then Inl DivisionByZero
      else Inr (s\<lparr>number := word_of_int (uint (rand e (calls s)) smod sint (modulo s)),
                  calls := calls s + 1\<rparr>))"

definition body32 :: "env \<Rightarrow> int \<Rightarrow> bool \<Rightarrow> int \<Rightarrow> 32 word locals \<Rightarrow> error + 32 word locals" where
  "body32 e run_length write_to_file i s =
     (case schedule32 e run_length i s of Inl err \<Rightarrow> Inl err | Inr s1 \<Rightarrow>
       (case emit32 e s1 of Inl err \<Rightarrow> Inl err | Inr s2 \<Rightarrow>
         (case Append e s2 of Inl err \<Rightarrow> Inl err | Inr s3 \<Rightarrow>
            Inr (record_lines write_to_file s3))))"

text \<open>
  \<^verbatim>\<open>rand()\<close> has one state for the whole process: the generator starts at the
  \<open>rand_calls\<close> calls made before it and returns, with the table, the number of calls
  made after it.
\<close>

definition generate_int32_delta_varied_bit_width_table ::
    "env \<Rightarrow> nat \<Rightarrow> int \<Rightarrow> int \<Rightarrow> bool \<Rightarrow> error + (32 word table \<times> nat)" where
  "generate_int32_delta_varied_bit_width_table e rand_calls num_values run_length write_to_file =
     (case for_loop 0 num_values (body32 e run_length write_to_file) (init rand_calls) of
        Inl err \<Rightarrow> Inl err
      | Inr s \<Rightarrow>
          (case finish write_to_file s of Inl err \<Rightarrow> Inl err | Inr t \<Rightarrow> Inr (t, calls s)))"

definition files_int32 :: "env \<Rightarrow> bool \<Rightarrow> 32 word table \<Rightarrow> files" where
  "files_int32 e write_to_file t =
     \<lparr>bin_on_disk = sidecar e write_to_file ''delta_varied_int32array.bin'' (check_file t),
      dec_on_disk = sidecar e write_to_file ''delta_varied_int32array.dec'' (dec_file t),
      hex_on_disk = sidecar e write_to_file ''delta_varied_int32array.hex'' (hex_file t)\<rparr>"

subsection \<open>main\<close>

text \<open>
  What a run of the program leaves: the text written to standard output, the text
  written to standard error, and how it ended: \<^verbatim>\<open>main\<close> returned a status, or the run
  ended in an error (an exception left \<^verbatim>\<open>main\<close>, which nothing catches).
\<close>

datatype outcome = Returned int | Terminated error

record process =
  std_cout :: string
  std_cerr :: string
  ended :: outcome

definition usage :: string where
  "usage = ''Usage: prelim num_values [iterations] [modulo]''"

text \<open>
  \<open>argv\<close> is the whole argument vector, the program's name first: \<^verbatim>\<open>argc\<close> is its
  length. \<^verbatim>\<open>iterations\<close> and \<^verbatim>\<open>modulo\<close> are read from \<^verbatim>\<open>argv[2]\<close> and \<^verbatim>\<open>argv[3]\<close> and
  used by nothing that is not commented out. Every output of \<^verbatim>\<open>main\<close> itself goes to
  \<^verbatim>\<open>std::cout\<close>; when the run ends in an error, the runtime writes to standard error.
\<close>

definition main :: "env \<Rightarrow> string list \<Rightarrow> process" where
  "main e argv =
     (if int (length argv) < 2 then
        \<lparr>std_cout = usage @ [endl], std_cerr = [], ended = Returned 1\<rparr>
      else
        let num_values = atoi e (argv ! 1);
            out1 = ''Size of Arrow table: '' @ show_dec num_values @ '' values.'' @ [endl]
        in (case generate_int64_delta_varied_bit_width_table e num_values 256 False of
              Inl err \<Rightarrow> \<lparr>std_cout = out1, std_cerr = uncaught e err, ended = Terminated err\<rparr>
            | Inr t \<Rightarrow>
                let out2 = out1 @ ''Finished Arrow table generation.'' @ [endl]
                                @ ''Starting Parquet file writing.'' @ [endl]
                in if WriteTable e (column t)
                   then \<lparr>std_cout = out2, std_cerr = [], ended = Returned 0\<rparr>
                   else \<lparr>std_cout = out2, std_cerr = uncaught e WriteFailed,
                         ended = Terminated WriteFailed\<rparr>))"

subsection \<open>Reading a decimal sidecar file back\<close>

text \<open>
  The reader is not part of the program. It is the usual one: the file is cut at every
  line end, and every line is read as an optional minus sign and decimal digits;
  anything else in a line is not a number.
\<close>

fun read_lines :: "string \<Rightarrow> string \<Rightarrow> string list" where
  "read_lines line [] = (if line = [] then [] else [line])"
| "read_lines line (c # cs) =
     (if c = endl then line # read_lines [] cs else read_lines (line @ [c]) cs)"

definition digit_value :: "char \<Rightarrow> nat option" where
  "digit_value c =
     (if 48 \<le> (of_char c :: nat) \<and> (of_char c :: nat) \<le> 57 then Some (of_char c - 48) else None)"

fun parse_digits :: "nat \<Rightarrow> string \<Rightarrow> nat option" where
  "parse_digits acc [] = Some acc"
| "parse_digits acc (c # cs) =
     (case digit_value c of None \<Rightarrow> None | Some d \<Rightarrow> parse_digits (10 * acc + d) cs)"

definition parse_dec :: "string \<Rightarrow> int option" where
  "parse_dec s =
     (case s of
        [] \<Rightarrow> None
      | c # cs \<Rightarrow>
          if c = CHR ''-'' then
            (if cs = [] then None else map_option (\<lambda>n. - int n) (parse_digits 0 cs))
          else map_option int (parse_digits 0 s))"

definition parse_dec_file :: "string \<Rightarrow> int option list" where
  "parse_dec_file f = map parse_dec (read_lines [] f)"

subsection \<open>The loops in closed form\<close>

text \<open>
  With run length \<open>L > 0\<close>, position \<open>i\<close> lies in run \<open>i div L\<close>. Before that run,
  \<open>(i div L) * L\<close> values and \<open>i div L\<close> moduli were drawn, so the modulus of the run is
  made from draw \<open>(i div L) * (L + 1)\<close> of the random source and the value at \<open>i\<close> from
  draw \<open>i + i div L + 1\<close>. These definitions say what the loops compute; the lemmas
  \<open>loop64\<close> and \<open>loop32\<close> below prove it of the loops as defined above. \<open>table_of\<close> is
  the table \<open>finish\<close> returns when the byte loop ends (lemma \<open>finish_eq\<close>).
\<close>

definition table_of :: "bool \<Rightarrow> 'a::len word locals \<Rightarrow> 'a word table" where
  "table_of write_to_file s =
     \<lparr>column = builder s,
      check_file = (if write_to_file then array_buffer (builder s) else []),
      dec_file = dec_check_file s,
      hex_file = hex_check_file s,
      moduli = modulo_log s\<rparr>"

definition modulus_at64 :: "env \<Rightarrow> nat \<Rightarrow> nat \<Rightarrow> 64 word" where
  "modulus_at64 e L i = draw_modulo64 (gen e ((i div L) * (L + 1)))"

definition value_at64 :: "env \<Rightarrow> nat \<Rightarrow> nat \<Rightarrow> 64 word" where
  "value_at64 e L i = gen e (i + i div L + 1) mod modulus_at64 e L i"

definition after64 :: "env \<Rightarrow> nat \<Rightarrow> bool \<Rightarrow> nat \<Rightarrow> 64 word locals" where
  "after64 e L w k =
     \<lparr>modulo = (if k = 0 then 0 else modulus_at64 e L (k - 1)),
      number = (if k = 0 then 0 else value_at64 e L (k - 1)),
      calls = (if k = 0 then 0 else k + (k - 1) div L + 1),
      builder = map (value_at64 e L) [0..<k],
      dec_check_file =
        (if w then concat (map (\<lambda>i. show_dec (sint (value_at64 e L i)) @ [endl]) [0..<k]) else []),
      hex_check_file =
        (if w then concat (map (\<lambda>i. show_hex8 (value_at64 e L i) @ [endl]) [0..<k]) else []),
      modulo_log = map (\<lambda>i. (i mod L = 0, modulus_at64 e L i)) [0..<k]\<rparr>"

definition modulus_at32 :: "env \<Rightarrow> nat \<Rightarrow> nat \<Rightarrow> nat \<Rightarrow> 32 word" where
  "modulus_at32 e c L i = draw_modulo32 (rand e (c + (i div L) * (L + 1)))"

definition value_at32 :: "env \<Rightarrow> nat \<Rightarrow> nat \<Rightarrow> nat \<Rightarrow> 32 word" where
  "value_at32 e c L i =
     word_of_int (uint (rand e (c + i + i div L + 1)) smod sint (modulus_at32 e c L i))"

definition after32 :: "env \<Rightarrow> nat \<Rightarrow> nat \<Rightarrow> bool \<Rightarrow> nat \<Rightarrow> 32 word locals" where
  "after32 e c L w k =
     \<lparr>modulo = (if k = 0 then 0 else modulus_at32 e c L (k - 1)),
      number = (if k = 0 then 0 else value_at32 e c L (k - 1)),
      calls = (if k = 0 then c else c + k + (k - 1) div L + 1),
      builder = map (value_at32 e c L) [0..<k],
      dec_check_file =
        (if w then concat (map (\<lambda>i. show_dec (sint (value_at32 e c L i)) @ [endl]) [0..<k]) else []),
      hex_check_file =
        (if w then concat (map (\<lambda>i. show_hex8 (value_at32 e c L i) @ [endl]) [0..<k]) else []),
      modulo_log = map (\<lambda>i. (i mod L = 0, modulus_at32 e c L i)) [0..<k]\<rparr>"

subsection \<open>Environments for the examples\<close>

text \<open>
  \<^verbatim>\<open>atoi\<close> as the C library has it: white space is skipped, then an optional sign and the
  decimal digits that follow are read, and what comes after them is ignored; without
  digits the result is 0. (A number that does not fit an \<^verbatim>\<open>int\<close> is undefined there; here
  it is the number read.)
\<close>

definition is_space :: "char \<Rightarrow> bool" where
  "is_space c = (c = CHR '' '' \<or> (9 \<le> (of_char c :: nat) \<and> (of_char c :: nat) \<le> 13))"

definition digits_value :: "string \<Rightarrow> nat" where
  "digits_value cs =
     foldl (\<lambda>a c. 10 * a + (of_char c - 48)) 0 (takeWhile (\<lambda>c. digit_value c \<noteq> None) cs)"

definition c_atoi :: "string \<Rightarrow> int" where
  "c_atoi s =
     (case dropWhile is_space s of
        [] \<Rightarrow> 0
      | c # cs \<Rightarrow>
          if c = CHR ''-'' then - int (digits_value cs)
          else if c = CHR ''+'' then int (digits_value cs)
          else int (digits_value (c # cs)))"

text \<open>
  An environment whose generator returns the draws \<open>ds\<close> in order (and 0 after them),
  whose \<^verbatim>\<open>rand()\<close> returns \<open>rs\<close> in order (and 0 after them), whose pool holds 1000
  values, whose Parquet writer succeeds, whose files open and take every write, and whose
  runtime reports an error in one line.
\<close>

definition replay :: "64 word list \<Rightarrow> 31 word list \<Rightarrow> env" where
  "replay ds rs =
     \<lparr>random_device = 0,
      mt19937_64 = (\<lambda>seed k. if k < length ds then ds ! k else 0),
      rand = (\<lambda>k. if k < length rs then rs ! k else 0),
      pool_capacity = 1000,
      atoi = c_atoi,
      WriteTable = (\<lambda>c. True),
      ofstream = (\<lambda>name. TakesAll),
      uncaught = (\<lambda>err. ''terminate called after throwing an exception'' @ [endl])\<rparr>"

text \<open>
  An environment whose engine depends on its seed: a counter started at the seed stands
  for \<^verbatim>\<open>std::mt19937_64\<close>, and \<^verbatim>\<open>std::random_device{}()\<close> returns \<open>seed\<close>.
\<close>

definition seeded :: "32 word \<Rightarrow> env" where
  "seeded seed =
     (replay [] [])\<lparr>random_device := seed, mt19937_64 := (\<lambda>s k. s + of_nat k)\<rparr>"

section \<open>The counting loop\<close>

text \<open>
  The loop with its last iteration split off, which is what an induction on the number of
  iterations needs.
\<close>

lemma for_loop_snoc:
  "i \<le> n \<Longrightarrow> for_loop i (n + 1) body s =
     (case for_loop i n body s of Inl e \<Rightarrow> Inl e | Inr s' \<Rightarrow> body n s')"
proof (induction i n body s rule: for_loop.induct)
  case (1 i n body s)
  show ?case
  proof (cases "i < n")
    case True
    have a: "for_loop i (n + 1) body s =
        (case body i s of Inl e \<Rightarrow> Inl e | Inr s' \<Rightarrow> for_loop (i + 1) (n + 1) body s')"
      using True by (simp add: for_loop.simps [of i "n + 1"])
    have b: "for_loop i n body s =
        (case body i s of Inl e \<Rightarrow> Inl e | Inr s' \<Rightarrow> for_loop (i + 1) n body s')"
      using True by (simp add: for_loop.simps [of i n])
    show ?thesis
    proof (cases "body i s")
      case (Inl e)
      then show ?thesis by (simp add: a b)
    next
      case (Inr s')
      then show ?thesis using 1 True by (simp add: a b)
    qed
  next
    case False
    with 1 have "i = n" by simp
    then show ?thesis
      by (simp add: for_loop.simps [of n "n + 1"] for_loop.simps [of "n + 1" "n + 1"]
          for_loop.simps [of n n] split: sum.splits)
  qed
qed

lemma for_loop_done: "n \<le> i \<Longrightarrow> for_loop i n body s = Inr s"
  by (simp add: for_loop.simps [of i n])

lemma for_loop_Suc:
  "for_loop 0 (1 + int k) body s =
     (case for_loop 0 (int k) body s of Inl e \<Rightarrow> Inl e | Inr s' \<Rightarrow> body (int k) s')"
  using for_loop_snoc [of 0 "int k" body s] by (simp add: add.commute)

lemma for_loop_nat: "for_loop 0 n body s = for_loop 0 (int (nat n)) body s"
  by (cases "0 \<le> n") (simp_all add: for_loop_done)

section \<open>Arithmetic of runs\<close>

text \<open>
  The remainder of \<^verbatim>\<open>int\<close>s in the loop condition is the remainder of natural numbers, and
  the run of a position changes exactly at the starts of runs.
\<close>

lemma smod_nat: "L \<noteq> 0 \<Longrightarrow> (int k smod L = 0) = (k mod nat \<bar>L\<bar> = 0)"
proof -
  assume "L \<noteq> 0"
  have "int k smod L = int k mod \<bar>L\<bar>"
    by (cases "k = 0") (simp_all add: smod_int_alt_def)
  also have "\<dots> = int (k mod nat \<bar>L\<bar>)"
    by (simp add: of_nat_mod)
  finally show ?thesis by simp
qed

lemma div_pred: "0 < (L::nat) \<Longrightarrow> k mod L \<noteq> 0 \<Longrightarrow> (k - 1) div L = k div L"
proof -
  assume L: "0 < L" and m: "k mod L \<noteq> 0"
  have k: "k = k div L * L + k mod L" by simp
  have "k - 1 = k div L * L + (k mod L - 1)"
    using m by (subst k) simp
  then have "(k - 1) div L = (k div L * L + (k mod L - 1)) div L" by simp
  also have "\<dots> = k div L + (k mod L - 1) div L"
    using L by (intro div_mult_self3) simp
  also have "(k mod L - 1) div L = 0"
    using L by (simp add: less_imp_diff_less)
  finally show ?thesis by simp
qed

lemma div_pred0: "0 < (L::nat) \<Longrightarrow> 0 < k \<Longrightarrow> k mod L = 0 \<Longrightarrow> (k - 1) div L + 1 = k div L"
proof -
  assume L: "0 < L" and k: "0 < k" and m: "k mod L = 0"
  define q where "q = k div L"
  have kq: "k = q * L" using m by (auto simp add: q_def)
  have q: "0 < q" using k kq by (cases q) auto
  have "k - 1 = (q - 1) * L + (L - 1)"
    using q L kq by (cases q) (auto simp add: algebra_simps)
  then have "(k - 1) div L = ((q - 1) * L + (L - 1)) div L" by simp
  also have "\<dots> = (q - 1) + (L - 1) div L"
    using L by (intro div_mult_self3) simp
  also have "(L - 1) div L = 0" using L by simp
  finally show ?thesis using q by (simp add: q_def)
qed

lemma run_start: "(k::nat) mod L = 0 \<Longrightarrow> k div L * (L + 1) = k + k div L"
proof -
  assume "k mod L = 0"
  then have "k div L * L = k" by auto
  then show ?thesis by (simp add: algebra_simps)
qed

lemma ceil_a: "0 < (N::nat) \<Longrightarrow> k mod N = 0 \<Longrightarrow> (Suc k + N - 1) div N = Suc ((k + N - 1) div N)"
  using div_pred0 [of N "k + N"] by auto

lemma ceil_b: "0 < (N::nat) \<Longrightarrow> k mod N \<noteq> 0 \<Longrightarrow> (Suc k + N - 1) div N = (k + N - 1) div N"
  using div_pred [of N "k + N"] div_pred [of N "Suc k + N"] by auto

lemma count_starts:
  "0 < (N::nat) \<Longrightarrow> length (filter (\<lambda>i. i mod N = 0) [0..<k]) = (k + N - 1) div N"
proof (induction k)
  case 0
  then show ?case by simp
next
  case (Suc k)
  show ?case
  proof (cases "k mod N = 0")
    case True
    then show ?thesis using Suc ceil_a [of N k] by simp
  next
    case False
    then show ?thesis using Suc ceil_b [of N k] by simp
  qed
qed

section \<open>The moduli\<close>

text \<open>
  The drawn modulus is a power of two, never zero, as an unsigned value and as a word.
\<close>

lemma unat_2p64: "n < 64 \<Longrightarrow> unat (2 ^ n :: 64 word) = 2 ^ n"
proof -
  assume n: "n < 64"
  have "(2::nat) ^ n < 2 ^ 64"
    using n by (simp only: power_strict_increasing_iff [of "2::nat"])
  moreover have "(2 ^ n :: 64 word) = of_nat (2 ^ n)" by simp
  ultimately show ?thesis
    by (simp only: unat_of_nat) simp
qed

lemma unat_draw_modulo64: "unat (draw_modulo64 d) = 2 ^ (unat d mod 64)"
  by (simp add: draw_modulo64_def unat_mod unat_2p64)

lemma draw_modulo64_nonzero: "draw_modulo64 d \<noteq> 0"
proof
  assume "draw_modulo64 d = 0"
  then have "unat (draw_modulo64 d) = 0" by simp
  then show False by (simp add: unat_draw_modulo64)
qed

lemma draw_modulo64_pow: "draw_modulo64 d = 2 ^ (unat d mod 64)"
  by (simp add: draw_modulo64_def unat_mod)

lemma pow2_le_63: "x < 64 \<Longrightarrow> (2::nat) ^ x \<le> 2 ^ 63"
  by (rule power_increasing) simp_all

lemma draw_modulo64_eq_iff: "x < 64 \<Longrightarrow> (draw_modulo64 d = 2 ^ x) = (unat d mod 64 = x)"
proof
  assume x: "x < 64" and "draw_modulo64 d = 2 ^ x"
  then have "unat (draw_modulo64 d) = unat (2 ^ x :: 64 word)" by simp
  then have "(2::nat) ^ (unat d mod 64) = 2 ^ x"
    using x by (simp add: unat_draw_modulo64 unat_2p64)
  then show "unat d mod 64 = x" by simp
next
  assume "unat d mod 64 = x"
  then show "draw_modulo64 d = 2 ^ x" by (simp add: draw_modulo64_pow)
qed

lemma unat_2p32: "n < 32 \<Longrightarrow> unat (2 ^ n :: 32 word) = 2 ^ n"
proof -
  assume n: "n < 32"
  have "(2::nat) ^ n < 2 ^ 32"
    using n by (simp only: power_strict_increasing_iff [of "2::nat"])
  moreover have "(2 ^ n :: 32 word) = of_nat (2 ^ n)" by simp
  ultimately show ?thesis
    by (simp only: unat_of_nat) simp
qed

lemma exponent32: "nat (uint r smod 32) = unat r mod 32"
proof -
  have "uint r smod 32 = uint r mod 32"
    by (rule smod_mod_positive) simp_all
  moreover have "nat (uint r mod 32) = nat (uint r) mod nat 32"
    by (rule nat_mod_distrib) simp_all
  moreover have "nat (uint r) = unat r"
    by (simp only: unat_eq_nat_uint)
  ultimately show ?thesis by simp
qed

lemma unat_draw_modulo32: "unat (draw_modulo32 r) = 2 ^ (unat r mod 32)"
  by (simp add: draw_modulo32_def exponent32 unat_2p32)

lemma draw_modulo32_nonzero: "draw_modulo32 d \<noteq> 0"
proof
  assume "draw_modulo32 d = 0"
  then have "unat (draw_modulo32 d) = 0" by simp
  then show False by (simp add: unat_draw_modulo32)
qed

lemma draw_modulo32_pow: "draw_modulo32 r = 2 ^ (unat r mod 32)"
  by (simp add: draw_modulo32_def exponent32)

lemma pow2_le_31: "x < 32 \<Longrightarrow> (2::nat) ^ x \<le> 2 ^ 31"
  by (rule power_increasing) simp_all

lemma draw_modulo32_eq_iff: "x < 32 \<Longrightarrow> (draw_modulo32 r = 2 ^ x) = (unat r mod 32 = x)"
proof
  assume x: "x < 32" and "draw_modulo32 r = 2 ^ x"
  then have "unat (draw_modulo32 r) = unat (2 ^ x :: 32 word)" by simp
  then have "(2::nat) ^ (unat r mod 32) = 2 ^ x"
    using x by (simp add: unat_draw_modulo32 unat_2p32)
  then show "unat r mod 32 = x" by simp
next
  assume "unat r mod 32 = x"
  then show "draw_modulo32 r = 2 ^ x" by (simp add: draw_modulo32_pow)
qed

section \<open>How many draws give each exponent\<close>

text \<open>
  Among the numbers below \<open>m * c\<close> each remainder modulo \<open>m\<close> occurs \<open>c\<close> times; words are
  counted through their unsigned values.
\<close>

lemma card_residue:
  assumes x: "x < (m::nat)"
  shows "card {n. n < m * c \<and> n mod m = x} = c"
proof -
  have "{n. n < m * c \<and> n mod m = x} = (\<lambda>q. m * q + x) ` {..<c}"
  proof (intro set_eqI iffI)
    fix n assume "n \<in> {n. n < m * c \<and> n mod m = x}"
    then have n: "n < m * c" and r: "n mod m = x" by simp_all
    have "n div m < c" using n x by (simp add: less_mult_imp_div_less mult.commute)
    moreover have "n = m * (n div m) + x" using r by auto
    ultimately show "n \<in> (\<lambda>q. m * q + x) ` {..<c}" by blast
  next
    fix n assume "n \<in> (\<lambda>q. m * q + x) ` {..<c}"
    then obtain q where q: "q < c" and n: "n = m * q + x" by auto
    have "m * q + x < m * q + m" using x by simp
    also have "\<dots> = m * Suc q" by simp
    also have "\<dots> \<le> m * c" using q by (intro mult_le_mono2) simp
    finally have "n < m * c" using n by simp
    moreover have "n mod m = x" using n x by simp
    ultimately show "n \<in> {n. n < m * c \<and> n mod m = x}" by simp
  qed
  moreover have "inj_on (\<lambda>q. m * q + x) {..<c}"
    using x by (intro inj_onI) auto
  ultimately show ?thesis by (simp add: card_image)
qed

lemma card_word_residue:
  "card {d :: 'a::len word. P (unat d)} = card {n. n < 2 ^ LENGTH('a) \<and> P n}"
proof -
  have "unat ` {d :: 'a word. P (unat d)} = {n. n < 2 ^ LENGTH('a) \<and> P n}"
  proof (intro set_eqI iffI)
    fix n assume "n \<in> unat ` {d :: 'a word. P (unat d)}"
    then show "n \<in> {n. n < 2 ^ LENGTH('a) \<and> P n}" by auto
  next
    fix n assume "n \<in> {n. n < 2 ^ LENGTH('a) \<and> P n}"
    then have n: "n < 2 ^ LENGTH('a)" and p: "P n" by simp_all
    have "unat (of_nat n :: 'a word) = n" using n by (simp add: unat_of_nat take_bit_nat_eq_self)
    then show "n \<in> unat ` {d :: 'a word. P (unat d)}" using p by (metis (mono_tags) imageI mem_Collect_eq)
  qed
  moreover have "inj_on unat {d :: 'a word. P (unat d)}"
    by (intro inj_onI) (simp add: word_eq_iff_unsigned [where ?'a = nat])
  ultimately show ?thesis by (metis card_image)
qed

lemma exponents64_uniform: "x < 64 \<Longrightarrow> card {d. draw_modulo64 d = 2 ^ x} = 2 ^ 58"
proof -
  assume x: "x < 64"
  have "{d. draw_modulo64 d = 2 ^ x} = {d :: 64 word. unat d mod 64 = x}"
    using x by (simp add: draw_modulo64_eq_iff)
  also have "card \<dots> = card {n. n < 2 ^ LENGTH(64) \<and> n mod 64 = x}"
    by (rule card_word_residue)
  also have "{n. n < 2 ^ LENGTH(64) \<and> n mod 64 = x} = {n. n < 64 * 2 ^ 58 \<and> n mod 64 = x}"
    by simp
  also have "card \<dots> = 2 ^ 58"
    by (rule card_residue [OF x])
  finally show ?thesis .
qed

lemma exponents32_uniform: "x < 32 \<Longrightarrow> card {r. draw_modulo32 r = 2 ^ x} = 2 ^ 26"
proof -
  assume x: "x < 32"
  have "{r. draw_modulo32 r = 2 ^ x} = {r :: 31 word. unat r mod 32 = x}"
    using x by (simp add: draw_modulo32_eq_iff)
  also have "card \<dots> = card {n. n < 2 ^ LENGTH(31) \<and> n mod 32 = x}"
    by (rule card_word_residue)
  also have "{n. n < 2 ^ LENGTH(31) \<and> n mod 32 = x} = {n. n < 32 * 2 ^ 26 \<and> n mod 32 = x}"
    by simp
  also have "card \<dots> = 2 ^ 26"
    by (rule card_residue [OF x])
  finally show ?thesis .
qed

section \<open>Signed readings\<close>

text \<open>
  Where the two's complement value of a word is its unsigned value, and the \<^verbatim>\<open>int\<close> remainder
  by a modulus of the int32 generator.
\<close>

lemma sint_small64: "unat (w :: 64 word) < 2 ^ 63 \<Longrightarrow> sint w = int (unat w)"
proof -
  assume a: "unat w < 2 ^ 63"
  have "int (unat w) < int (2 ^ 63)" using a by (simp only: of_nat_less_iff)
  then have lt: "uint w < 2 ^ 63" by simp
  have ge: "- (2 ^ 63) \<le> uint w"
    by (rule order_trans [of _ 0]) simp_all
  have "signed_take_bit 63 (uint w) = uint w"
    using ge lt by (rule signed_take_bit_int_eq_self)
  then show ?thesis by (simp add: sint_uint)
qed

lemma sint_word_of_int32: "0 \<le> v \<Longrightarrow> v < 2 ^ 31 \<Longrightarrow> sint (word_of_int v :: 32 word) = v"
proof -
  assume a: "0 \<le> v" and b: "v < 2 ^ 31"
  have ge: "- (2 ^ 31) \<le> v"
    using a by (rule order_trans [rotated]) simp
  have "signed_take_bit 31 v = v"
    using ge b by (rule signed_take_bit_int_eq_self)
  then show ?thesis by (simp add: sint_sbintrunc')
qed

lemma uint_rand_range: "0 \<le> uint (r :: 31 word) \<and> uint r < 2 ^ 31"
proof -
  have "uint r < 2 ^ LENGTH(31)" by (rule uint_lt2p)
  then show ?thesis by simp
qed

lemma sint_2p32: "x < 31 \<Longrightarrow> sint (2 ^ x :: 32 word) = 2 ^ x"
proof -
  assume x: "x < 31"
  have "(2::int) ^ x < 2 ^ 31"
    using x by (simp only: power_strict_increasing_iff [of "2::int"])
  then have "sint (word_of_int (2 ^ x) :: 32 word) = 2 ^ x"
    by (intro sint_word_of_int32) simp_all
  then show ?thesis by simp
qed

lemma smod_modulus32:
  assumes a: "0 \<le> a" and b: "a < 2 ^ 31" and x: "x < 32"
  shows "a smod sint (2 ^ x :: 32 word) = a mod 2 ^ x"
proof (cases "x = 31")
  case True
  have s: "sint (2 ^ 31 :: 32 word) = - 2147483648" by simp
  have "a smod (- 2147483648) = a"
    using a b by (cases "a = 0") (simp_all add: smod_int_alt_def sgn_if)
  moreover have "a mod 2 ^ 31 = a" using a b by simp
  ultimately show ?thesis using True s by simp
next
  case False
  then have "x < 31" using x by simp
  then have "sint (2 ^ x :: 32 word) = 2 ^ x" by (rule sint_2p32)
  moreover have "a smod 2 ^ x = a mod 2 ^ x"
    using a by (intro smod_mod_positive) simp_all
  ultimately show ?thesis by simp
qed

text \<open>
  The variable \<^verbatim>\<open>modulo\<close> is signed: with the top exponent its two's complement value
  is negative, and its unsigned value is the power of two.
\<close>

lemma modulo_sign_at_top_exponent:
  "sint (draw_modulo64 63) = - (2 ^ 63)" "uint (draw_modulo64 63) = 2 ^ 63"
  "sint (draw_modulo32 31) = - (2 ^ 31)" "uint (draw_modulo32 31) = 2 ^ 31"
  by (simp_all add: draw_modulo64_def draw_modulo32_def smod_int_alt_def)

section \<open>The byte loop\<close>

text \<open>
  The byte loop sends the whole buffer, unless the buffer has \<open>2^31\<close> bytes or more: then
  its counter overflows. A buffer of \<open>n\<close> values has \<open>8 * n\<close> bytes (\<open>4 * n\<close> for \<^verbatim>\<open>int\<close>
  values), so this happens from \<open>2^28\<close> (\<open>2^29\<close>) values on.
\<close>

lemma byte_loop_eq:
  "0 \<le> i \<Longrightarrow> i \<le> int (length buffer) \<Longrightarrow> i \<le> 2147483647 \<Longrightarrow>
     byte_loop i buffer sent =
       (if 2147483648 \<le> int (length buffer) then Inl IntegerOverflow
        else Inr (sent @ drop (nat i) buffer))"
proof (induction i buffer sent rule: byte_loop.induct)
  case (1 i buffer sent)
  show ?case
  proof (cases "i < int (length buffer)")
    case False
    then have "\<not> 2147483648 \<le> int (length buffer)" and "length buffer \<le> nat i"
      using "1.prems" by linarith+
    then show ?thesis
      using False by (simp add: byte_loop.simps [of i buffer sent])
  next
    case True
    show ?thesis
    proof (cases "i = 2147483647")
      case top: True
      have "byte_loop 2147483647 buffer sent = Inl IntegerOverflow"
        using True top by (simp add: byte_loop.simps [of 2147483647 buffer sent])
      then have "byte_loop i buffer sent = Inl IntegerOverflow"
        by (simp only: top)
      moreover have "2147483648 \<le> int (length buffer)" using True top by linarith
      ultimately show ?thesis by simp
    next
      case below: False
      have n: "nat i < length buffer" using True "1.prems" by simp
      have "byte_loop (i + 1) buffer (sent @ [buffer ! nat i]) =
          (if 2147483648 \<le> int (length buffer) then Inl IntegerOverflow
           else Inr ((sent @ [buffer ! nat i]) @ drop (nat (i + 1)) buffer))"
        using "1.IH" [OF True below] True below "1.prems" by simp
      moreover have "nat (i + 1) = Suc (nat i)" using "1.prems" by simp
      moreover have "buffer ! nat i # drop (Suc (nat i)) buffer = drop (nat i) buffer"
        using n by (rule Cons_nth_drop_Suc)
      ultimately show ?thesis
        using True below by (simp add: byte_loop.simps [of i buffer sent])
    qed
  qed
qed

lemma length_buffer_bytes: "length (buffer_bytes (w :: 'a::len word)) = LENGTH('a) div 8"
  by (simp add: buffer_bytes_def)

lemma length_array_buffer:
  "length (array_buffer (vs :: 'a::len word list)) = LENGTH('a) div 8 * length vs"
  by (induction vs) (simp_all add: array_buffer_def length_buffer_bytes)

lemma finish_eq:
  "finish w (s :: 'a::len word locals) =
     (if w \<and> 2147483648 \<le> int (LENGTH('a) div 8 * length (builder s)) then Inl IntegerOverflow
      else Inr (table_of w s))"
proof (cases w)
  case False
  then show ?thesis by (simp add: finish_def table_of_def)
next
  case True
  have "byte_loop 0 (array_buffer (builder s)) [] =
      (if 2147483648 \<le> int (length (array_buffer (builder s))) then Inl IntegerOverflow
       else Inr ([] @ drop (nat 0) (array_buffer (builder s))))"
    by (rule byte_loop_eq) simp_all
  then show ?thesis
    using True by (simp add: finish_def table_of_def length_array_buffer)
qed

lemma finish64:
  "finish w (s :: 64 word locals) =
     (if w \<and> 268435456 \<le> length (builder s) then Inl IntegerOverflow else Inr (table_of w s))"
  by (simp add: finish_eq)

lemma finish32:
  "finish w (s :: 32 word locals) =
     (if w \<and> 536870912 \<le> length (builder s) then Inl IntegerOverflow else Inr (table_of w s))"
  by (simp add: finish_eq)

section \<open>The loop of the int64 generator\<close>

text \<open>
  One iteration takes the closed form after \<open>k\<close> iterations to the closed form after
  \<open>k + 1\<close>, or fails when the pool is full; so the loop computes the closed form.
\<close>

lemma step64_first:
  assumes L: "L \<noteq> 0" and k: "0 < pool_capacity e"
  shows "body64 e L w 0 (after64 e (nat \<bar>L\<bar>) w 0) = Inr (after64 e (nat \<bar>L\<bar>) w (Suc 0))"
  using L k
  by (simp add: body64_def schedule64_def emit64_def Append_def record_lines_def
            after64_def modulus_at64_def value_at64_def draw_modulo64_nonzero)

lemma step64_inner:
  assumes L: "L \<noteq> 0" and k: "k < pool_capacity e" and F: "k mod nat \<bar>L\<bar> \<noteq> 0"
  shows "body64 e L w (int k) (after64 e (nat \<bar>L\<bar>) w k) = Inr (after64 e (nat \<bar>L\<bar>) w (Suc k))"
proof -
  have Lp: "0 < nat \<bar>L\<bar>" using L by simp
  have k0: "k \<noteq> 0" using F by (cases k) auto
  have d: "(k - Suc 0) div nat \<bar>L\<bar> = k div nat \<bar>L\<bar>" using div_pred [OF Lp F] by simp
  have b: "int k smod L \<noteq> 0" using F L by (simp add: smod_nat)
  show ?thesis
    using k k0 F
    by (simp add: body64_def schedule64_def emit64_def Append_def record_lines_def L b d
            after64_def modulus_at64_def value_at64_def draw_modulo64_nonzero)
qed

lemma step64_start:
  assumes L: "L \<noteq> 0" and k: "k < pool_capacity e" and T: "k mod nat \<bar>L\<bar> = 0" and k0: "0 < k"
  shows "body64 e L w (int k) (after64 e (nat \<bar>L\<bar>) w k) = Inr (after64 e (nat \<bar>L\<bar>) w (Suc k))"
proof -
  have Lp: "0 < nat \<bar>L\<bar>" using L by simp
  have d: "Suc (k + (k - Suc 0) div nat \<bar>L\<bar>) = k + k div nat \<bar>L\<bar>"
    using div_pred0 [OF Lp k0 T] by simp
  have r: "k div nat \<bar>L\<bar> * nat \<bar>L\<bar> = k" using T by auto
  have b: "int k smod L = 0" using T L by (simp add: smod_nat)
  show ?thesis
    using k k0 T
    by (simp add: body64_def schedule64_def emit64_def Append_def record_lines_def L b d r
            after64_def modulus_at64_def value_at64_def draw_modulo64_nonzero add.commute)
qed

lemma step64:
  assumes L: "L \<noteq> 0" and k: "k < pool_capacity e"
  shows "body64 e L w (int k) (after64 e (nat \<bar>L\<bar>) w k) = Inr (after64 e (nat \<bar>L\<bar>) w (Suc k))"
proof (cases "k = 0")
  case True
  then show ?thesis using step64_first [OF L, of e w] k by simp
next
  case False
  then show ?thesis
    using step64_inner [OF L k] step64_start [OF L k] by (cases "k mod nat \<bar>L\<bar> = 0") auto
qed

lemma step64_full:
  assumes L: "L \<noteq> 0" and k: "pool_capacity e \<le> k"
  shows "body64 e L w (int k) (after64 e (nat \<bar>L\<bar>) w k) = Inl OutOfMemory"
  using L k
  by (simp add: body64_def schedule64_def emit64_def Append_def after64_def
      draw_modulo64_nonzero modulus_at64_def split: sum.splits)

lemma loop64:
  assumes L: "L \<noteq> 0"
  shows "for_loop 0 (int k) (body64 e L w) (init 0) =
     (if k \<le> pool_capacity e then Inr (after64 e (nat \<bar>L\<bar>) w k) else Inl OutOfMemory)"
proof (induction k)
  case 0
  show ?case by (simp add: for_loop_done init_def after64_def)
next
  case (Suc k)
  show ?case
    using Suc step64 [OF L, of k e w] step64_full [OF L, of e k w]
    by (simp add: for_loop_Suc)
qed

lemma loop64_zero:
  "for_loop 0 n (body64 e 0 w) s = (if n \<le> 0 then Inr s else Inl DivisionByZero)"
  by (simp add: for_loop.simps [of 0 n] body64_def schedule64_def)

lemma builder_after64: "length (builder (after64 e N w k)) = k"
  by (simp add: after64_def)

lemma generate64_eq:
  assumes L: "L \<noteq> 0"
  shows "generate_int64_delta_varied_bit_width_table e n L w =
     (if nat n \<le> pool_capacity e then
        (if w \<and> 268435456 \<le> nat n then Inl IntegerOverflow
         else Inr (table_of w (after64 e (nat \<bar>L\<bar>) w (nat n))))
      else Inl OutOfMemory)"
  unfolding generate_int64_delta_varied_bit_width_table_def
  by (simp only: for_loop_nat [of n] loop64 [OF L]) (simp add: finish64 builder_after64)

lemma generate64_ok:
  assumes L: "0 < L" and c: "nat n \<le> pool_capacity e" and b: "w \<longrightarrow> 8 * n \<le> 2147483647"
  shows "generate_int64_delta_varied_bit_width_table e n L w =
           Inr (table_of w (after64 e (nat L) w (nat n)))"
proof -
  have "L \<noteq> 0" and "nat \<bar>L\<bar> = nat L" using L by simp_all
  moreover have "\<not> (w \<and> 268435456 \<le> nat n)" using b by auto
  ultimately show ?thesis using c by (simp add: generate64_eq)
qed

lemma generate64_zero:
  "generate_int64_delta_varied_bit_width_table e n 0 w =
     (if n \<le> 0 then Inr (table_of w (init 0)) else Inl DivisionByZero)"
  by (simp add: generate_int64_delta_varied_bit_width_table_def loop64_zero finish64 init_def)

lemma generate64_no_division_by_zero:
  "L \<noteq> 0 \<Longrightarrow> generate_int64_delta_varied_bit_width_table e n L w \<noteq> Inl DivisionByZero"
  by (simp add: generate64_eq)

lemma moduli_after64:
  "moduli (table_of w (after64 e N w k)) = map (\<lambda>i. (i mod N = 0, modulus_at64 e N i)) [0..<k]"
  by (simp add: table_of_def after64_def)

lemma column_after64:
  "column (table_of w (after64 e N w k)) = map (value_at64 e N) [0..<k]"
  by (simp add: table_of_def after64_def)

lemma drawn_after64:
  "length (filter fst (moduli (table_of w (after64 e N w k)))) =
     length (filter (\<lambda>i. i mod N = 0) [0..<k])"
  by (simp add: moduli_after64 filter_map comp_def)

lemma gen_cong:
  "random_device e1 = random_device e2 \<Longrightarrow> mt19937_64 e1 = mt19937_64 e2 \<Longrightarrow> gen e1 = gen e2"
  by (rule ext) (simp add: gen_def)

lemma after64_cong:
  assumes "gen e1 = gen e2"
  shows "after64 e1 N w k = after64 e2 N w k"
  by (simp add: after64_def value_at64_def modulus_at64_def assms)

lemma moduli_of_generate64:
  assumes "generate_int64_delta_varied_bit_width_table e n L w = Inr t" and "i < length (moduli t)"
  shows "\<exists>k. snd (moduli t ! i) = draw_modulo64 (gen e k)"
proof (cases "L = 0")
  case True
  then show ?thesis
    using assms by (auto simp add: generate64_zero table_of_def init_def split: if_splits)
next
  case False
  then have "t = table_of w (after64 e (nat \<bar>L\<bar>) w (nat n))"
    using assms(1) by (simp add: generate64_eq split: if_splits)
  then show ?thesis
    using assms(2) by (auto simp add: moduli_after64 modulus_at64_def)
qed

section \<open>The values of the int64 generator\<close>

text \<open>
  A value is below the unsigned modulus of its run, which is at most \<open>2^63\<close>: read as
  \<^verbatim>\<open>int64_t\<close> it is not negative.
\<close>

lemma unat_value_at64: "unat (value_at64 e N i) < unat (modulus_at64 e N i)"
  by (simp add: value_at64_def unat_mod modulus_at64_def unat_draw_modulo64)

lemma unat_modulus_at64:
  "unat (modulus_at64 e N i) = 2 ^ (unat (gen e (i div N * (N + 1))) mod 64)"
  by (simp add: modulus_at64_def unat_draw_modulo64)

lemma unat_modulus_at64_le: "unat (modulus_at64 e N i) \<le> 2 ^ 63"
  unfolding unat_modulus_at64 by (rule pow2_le_63) simp

lemma sint_value_at64: "sint (value_at64 e N i) = int (unat (value_at64 e N i))"
proof (rule sint_small64)
  show "unat (value_at64 e N i) < 2 ^ 63"
    using unat_value_at64 [of e N i] unat_modulus_at64_le [of e N i] by (rule less_le_trans)
qed

lemma value_at64_range:
  "0 \<le> sint (value_at64 e N i) \<and> sint (value_at64 e N i) < uint (modulus_at64 e N i)"
proof -
  have "int (unat (value_at64 e N i)) < int (unat (modulus_at64 e N i))"
    using unat_value_at64 [of e N i] by (simp only: of_nat_less_iff)
  then show ?thesis by (simp add: sint_value_at64)
qed

lemma uint_modulus_at64: "\<exists>x<64. uint (modulus_at64 e N i) = 2 ^ x"
proof -
  have "int (unat (modulus_at64 e N i)) = int (2 ^ (unat (gen e (i div N * (N + 1))) mod 64))"
    by (simp only: unat_modulus_at64)
  then have "uint (modulus_at64 e N i) = 2 ^ (unat (gen e (i div N * (N + 1))) mod 64)"
    by simp
  moreover have "unat (gen e (i div N * (N + 1))) mod 64 < 64" by simp
  ultimately show ?thesis by blast
qed

section \<open>The loop of the int32 generator\<close>

text \<open>
  As for the int64 generator, with \<^verbatim>\<open>rand()\<close> started at call \<open>c\<close>.
\<close>

lemma step32_first:
  assumes L: "L \<noteq> 0" and k: "0 < pool_capacity e"
  shows "body32 e L w 0 (after32 e c (nat \<bar>L\<bar>) w 0) = Inr (after32 e c (nat \<bar>L\<bar>) w (Suc 0))"
  using L k
  by (simp add: body32_def schedule32_def emit32_def Append_def record_lines_def
            after32_def modulus_at32_def value_at32_def draw_modulo32_nonzero)

lemma step32_inner:
  assumes L: "L \<noteq> 0" and k: "k < pool_capacity e" and F: "k mod nat \<bar>L\<bar> \<noteq> 0"
  shows "body32 e L w (int k) (after32 e c (nat \<bar>L\<bar>) w k) = Inr (after32 e c (nat \<bar>L\<bar>) w (Suc k))"
proof -
  have Lp: "0 < nat \<bar>L\<bar>" using L by simp
  have k0: "k \<noteq> 0" using F by (cases k) auto
  have d: "(k - Suc 0) div nat \<bar>L\<bar> = k div nat \<bar>L\<bar>" using div_pred [OF Lp F] by simp
  have b: "int k smod L \<noteq> 0" using F L by (simp add: smod_nat)
  show ?thesis
    using k k0 F
    by (simp add: body32_def schedule32_def emit32_def Append_def record_lines_def L b d
            after32_def modulus_at32_def value_at32_def draw_modulo32_nonzero)
qed

lemma step32_start:
  assumes L: "L \<noteq> 0" and k: "k < pool_capacity e" and T: "k mod nat \<bar>L\<bar> = 0" and k0: "0 < k"
  shows "body32 e L w (int k) (after32 e c (nat \<bar>L\<bar>) w k) = Inr (after32 e c (nat \<bar>L\<bar>) w (Suc k))"
proof -
  have Lp: "0 < nat \<bar>L\<bar>" using L by simp
  have d: "Suc (c + k + (k - Suc 0) div nat \<bar>L\<bar>) = c + k + k div nat \<bar>L\<bar>"
    using div_pred0 [OF Lp k0 T] by simp
  have m: "c + (k div nat \<bar>L\<bar> + k) = c + k + k div nat \<bar>L\<bar>" by simp
  have r: "k div nat \<bar>L\<bar> * nat \<bar>L\<bar> = k" using T by auto
  have b: "int k smod L = 0" using T L by (simp add: smod_nat)
  show ?thesis
    using k k0 T
    by (simp add: body32_def schedule32_def emit32_def Append_def record_lines_def L b d r m
            after32_def modulus_at32_def value_at32_def draw_modulo32_nonzero)
qed

lemma step32:
  assumes L: "L \<noteq> 0" and k: "k < pool_capacity e"
  shows "body32 e L w (int k) (after32 e c (nat \<bar>L\<bar>) w k) = Inr (after32 e c (nat \<bar>L\<bar>) w (Suc k))"
proof (cases "k = 0")
  case True
  then show ?thesis using step32_first [OF L, of e w] k by simp
next
  case False
  then show ?thesis
    using step32_inner [OF L k] step32_start [OF L k] by (cases "k mod nat \<bar>L\<bar> = 0") auto
qed

lemma step32_full:
  assumes L: "L \<noteq> 0" and k: "pool_capacity e \<le> k"
  shows "body32 e L w (int k) (after32 e c (nat \<bar>L\<bar>) w k) = Inl OutOfMemory"
  using L k
  by (simp add: body32_def schedule32_def emit32_def Append_def after32_def
      draw_modulo32_nonzero modulus_at32_def split: sum.splits)

lemma loop32:
  assumes L: "L \<noteq> 0"
  shows "for_loop 0 (int k) (body32 e L w) (init c) =
     (if k \<le> pool_capacity e then Inr (after32 e c (nat \<bar>L\<bar>) w k) else Inl OutOfMemory)"
proof (induction k)
  case 0
  show ?case by (simp add: for_loop_done init_def after32_def)
next
  case (Suc k)
  show ?case
    using Suc step32 [OF L, of k e w] step32_full [OF L, of e k w]
    by (simp add: for_loop_Suc)
qed

lemma loop32_zero:
  "for_loop 0 n (body32 e 0 w) s = (if n \<le> 0 then Inr s else Inl DivisionByZero)"
  by (simp add: for_loop.simps [of 0 n] body32_def schedule32_def)

lemma builder_after32: "length (builder (after32 e c N w k)) = k"
  by (simp add: after32_def)

lemma generate32_eq:
  assumes L: "L \<noteq> 0"
  shows "generate_int32_delta_varied_bit_width_table e c n L w =
     (if nat n \<le> pool_capacity e then
        (if w \<and> 536870912 \<le> nat n then Inl IntegerOverflow
         else Inr (table_of w (after32 e c (nat \<bar>L\<bar>) w (nat n)),
                   calls (after32 e c (nat \<bar>L\<bar>) w (nat n))))
      else Inl OutOfMemory)"
  unfolding generate_int32_delta_varied_bit_width_table_def
  by (simp only: for_loop_nat [of n] loop32 [OF L]) (simp add: finish32 builder_after32)

lemma generate32_ok:
  assumes L: "0 < L" and c: "nat n \<le> pool_capacity e" and b: "w \<longrightarrow> 4 * n \<le> 2147483647"
  shows "generate_int32_delta_varied_bit_width_table e r n L w =
           Inr (table_of w (after32 e r (nat L) w (nat n)), calls (after32 e r (nat L) w (nat n)))"
proof -
  have "L \<noteq> 0" and "nat \<bar>L\<bar> = nat L" using L by simp_all
  moreover have "\<not> (w \<and> 536870912 \<le> nat n)" using b by auto
  ultimately show ?thesis using c by (simp add: generate32_eq)
qed

lemma generate32_zero:
  "generate_int32_delta_varied_bit_width_table e c n 0 w =
     (if n \<le> 0 then Inr (table_of w (init c), c) else Inl DivisionByZero)"
  by (simp add: generate_int32_delta_varied_bit_width_table_def for_loop.simps [of 0 n]
      body32_def schedule32_def finish32 init_def)

lemma generate32_no_division_by_zero:
  "L \<noteq> 0 \<Longrightarrow> generate_int32_delta_varied_bit_width_table e c n L w \<noteq> Inl DivisionByZero"
  by (simp add: generate32_eq)

lemma moduli_after32:
  "moduli (table_of w (after32 e c N w k)) = map (\<lambda>i. (i mod N = 0, modulus_at32 e c N i)) [0..<k]"
  by (simp add: table_of_def after32_def)

lemma column_after32:
  "column (table_of w (after32 e c N w k)) = map (value_at32 e c N) [0..<k]"
  by (simp add: table_of_def after32_def)

lemma after32_cong:
  assumes "rand e1 = rand e2"
  shows "after32 e1 c N w k = after32 e2 c N w k"
  by (simp add: after32_def value_at32_def modulus_at32_def assms)

lemma moduli_of_generate32:
  assumes "generate_int32_delta_varied_bit_width_table e c n L w = Inr (t, c')"
    and "i < length (moduli t)"
  shows "\<exists>k. snd (moduli t ! i) = draw_modulo32 (rand e k)"
proof (cases "L = 0")
  case True
  then show ?thesis
    using assms by (auto simp add: generate32_zero table_of_def init_def split: if_splits)
next
  case False
  then have "t = table_of w (after32 e c (nat \<bar>L\<bar>) w (nat n))"
    using assms(1) by (simp add: generate32_eq split: if_splits)
  then show ?thesis
    using assms(2) by (auto simp add: moduli_after32 modulus_at32_def)
qed

section \<open>The values of the int32 generator\<close>

text \<open>
  The \<^verbatim>\<open>int\<close> remainder by the stored modulus is the remainder of \<^verbatim>\<open>rand()\<close> by the power of
  two, also for the exponent 31, where the stored modulus is \<^verbatim>\<open>INT_MIN\<close>.
\<close>

lemma sint_value_at32:
  "sint (value_at32 e c N i) =
     uint (rand e (c + i + i div N + 1)) mod 2 ^ (unat (rand e (c + i div N * (N + 1))) mod 32)"
proof -
  let ?a = "uint (rand e (c + i + i div N + 1))"
  let ?x = "unat (rand e (c + i div N * (N + 1))) mod 32"
  have x: "?x < 32" by simp
  have a: "0 \<le> ?a" and b: "?a < 2 ^ 31" using uint_rand_range by blast+
  have m: "?a smod sint (2 ^ ?x :: 32 word) = ?a mod 2 ^ ?x"
    by (rule smod_modulus32 [OF a b x])
  have "0 \<le> ?a mod 2 ^ ?x" by simp
  moreover have "?a mod 2 ^ ?x \<le> ?a" using a by (rule zmod_le_nonneg_dividend)
  ultimately have "sint (word_of_int (?a mod 2 ^ ?x) :: 32 word) = ?a mod 2 ^ ?x"
    using b by (intro sint_word_of_int32) simp_all
  then show ?thesis
    by (simp only: value_at32_def modulus_at32_def draw_modulo32_pow m)
qed

lemma uint_modulus_at32:
  "uint (modulus_at32 e c N i) = 2 ^ (unat (rand e (c + i div N * (N + 1))) mod 32)"
proof -
  have "int (unat (modulus_at32 e c N i)) = int (2 ^ (unat (rand e (c + i div N * (N + 1))) mod 32))"
    by (simp only: modulus_at32_def unat_draw_modulo32)
  then show ?thesis by simp
qed

lemma value_at32_range:
  "0 \<le> sint (value_at32 e c N i) \<and> sint (value_at32 e c N i) < uint (modulus_at32 e c N i)"
  by (simp add: sint_value_at32 uint_modulus_at32)

section \<open>Writing and reading decimal lines\<close>

text \<open>
  The decimal digits written for a number read back as that number, and no line holds
  a line end.
\<close>

lemma digit_value_digit: "d < 10 \<Longrightarrow> digit_value (char_of (48 + d :: nat)) = Some d"
  by (simp add: digit_value_def)

lemma digit_not_endl: "d < 10 \<Longrightarrow> char_of (48 + d :: nat) \<noteq> endl"
proof
  assume d: "d < 10" and "char_of (48 + d) = endl"
  then have "(of_char (char_of (48 + d)) :: nat) = of_char endl" by simp
  then show False using d by (simp add: endl_def)
qed

lemma digit_not_minus: "d < 10 \<Longrightarrow> char_of (48 + d :: nat) \<noteq> CHR ''-''"
proof
  assume d: "d < 10" and "char_of (48 + d) = CHR ''-''"
  then have "(of_char (char_of (48 + d)) :: nat) = of_char (CHR ''-'')" by simp
  then show False using d by simp
qed

lemma parse_digits_append:
  "parse_digits acc (xs @ ys) =
     (case parse_digits acc xs of None \<Rightarrow> None | Some a \<Rightarrow> parse_digits a ys)"
  by (induction xs arbitrary: acc) (auto split: option.splits)

lemma parse_dec_digits: "parse_digits 0 (dec_digits n) = Some n"
proof (induction n rule: dec_digits.induct)
  case (1 n)
  show ?case
  proof (cases "n < 10")
    case True
    then show ?thesis
      by (simp add: dec_digits.simps [of n] digit_value_digit)
  next
    case False
    have "n mod 10 < 10" by simp
    then show ?thesis
      using False 1
      by (simp add: dec_digits.simps [of n] parse_digits_append digit_value_digit)
  qed
qed

lemma dec_digits_no_endl: "endl \<notin> set (dec_digits n)"
proof (induction n rule: dec_digits.induct)
  case (1 n)
  have m: "n mod 10 < 10" by simp
  show ?case
  proof (cases "n < 10")
    case True
    then show ?thesis
      using digit_not_endl [of n] by (auto simp add: dec_digits.simps [of n])
  next
    case False
    then show ?thesis
      using 1 digit_not_endl [OF m] by (auto simp add: dec_digits.simps [of n])
  qed
qed

lemma dec_digits_hd: "\<exists>c cs. dec_digits n = c # cs \<and> c \<noteq> CHR ''-''"
proof (induction n rule: dec_digits.induct)
  case (1 n)
  show ?case
  proof (cases "n < 10")
    case True
    then show ?thesis
      using digit_not_minus [of n] by (simp add: dec_digits.simps [of n])
  next
    case False
    then obtain c cs where "dec_digits (n div 10) = c # cs" "c \<noteq> CHR ''-''"
      using 1 by blast
    then show ?thesis
      using False by (simp add: dec_digits.simps [of n])
  qed
qed

lemma parse_show_dec: "parse_dec (show_dec k) = Some k"
proof (cases "k < 0")
  case True
  obtain c cs where "dec_digits (nat (- k)) = c # cs"
    using dec_digits_hd by blast
  then have ne: "dec_digits (nat (- k)) \<noteq> []" by simp
  show ?thesis
    using True ne by (simp add: parse_dec_def show_dec_def parse_dec_digits)
next
  case False
  obtain c cs where h: "dec_digits (nat k) = c # cs" "c \<noteq> CHR ''-''"
    using dec_digits_hd by blast
  have "parse_digits 0 (c # cs) = Some (nat k)"
    using parse_dec_digits [of "nat k"] h by simp
  then show ?thesis
    using False h by (simp add: parse_dec_def show_dec_def)
qed

lemma show_dec_no_endl: "endl \<notin> set (show_dec k)"
proof -
  have "endl \<noteq> CHR ''-''" by (simp add: endl_def)
  then show ?thesis by (simp add: show_dec_def dec_digits_no_endl)
qed

lemma read_lines_line:
  "endl \<notin> set l \<Longrightarrow> read_lines acc (l @ endl # rest) = (acc @ l) # read_lines [] rest"
  by (induction l arbitrary: acc) auto

lemma read_lines_concat:
  "(\<And>v. endl \<notin> set (f v)) \<Longrightarrow>
     read_lines [] (concat (map (\<lambda>v. f v @ [endl]) vs)) = map f vs"
proof (induction vs)
  case Nil
  show ?case by simp
next
  case (Cons v vs)
  then show ?case
    using read_lines_line [of "f v" "[]" "concat (map (\<lambda>v. f v @ [endl]) vs)"]
    by simp
qed

section \<open>The width of a hexadecimal line\<close>

text \<open>
  A number has at most \<open>k\<close> hexadecimal digits exactly when it is below \<open>16^k\<close>: a field
  of minimum width 8 has 8 characters exactly when the value is below \<open>2^32\<close>.
\<close>

lemma length_hex_digits_le: "0 < k \<Longrightarrow> n < 16 ^ k \<Longrightarrow> length (hex_digits n) \<le> k"
proof (induction n arbitrary: k rule: hex_digits.induct)
  case (1 n)
  show ?case
  proof (cases "n < 16")
    case True
    then show ?thesis using "1.prems" by (simp add: hex_digits.simps [of n])
  next
    case False
    obtain j where k: "k = Suc j" using "1.prems"(1) by (cases k) auto
    have j: "0 < j"
    proof (rule ccontr)
      assume "\<not> 0 < j"
      then have "k = 1" using k by simp
      then show False using "1.prems"(2) False by simp
    qed
    have "n div 16 < 16 ^ j"
      using "1.prems"(2) k by (simp add: less_mult_imp_div_less mult.commute)
    then have "length (hex_digits (n div 16)) \<le> j"
      using "1.IH" [OF False j] by simp
    then show ?thesis using False k by (simp add: hex_digits.simps [of n])
  qed
qed

lemma length_hex_digits_gt: "16 ^ k \<le> n \<Longrightarrow> k < length (hex_digits n)"
proof (induction n arbitrary: k rule: hex_digits.induct)
  case (1 n)
  show ?case
  proof (cases "n < 16")
    case True
    have "k = 0"
    proof (rule ccontr)
      assume "k \<noteq> 0"
      then obtain j where "k = Suc j" by (cases k) auto
      then have "(16::nat) \<le> 16 ^ k" by simp
      then show False using "1.prems" True by simp
    qed
    then show ?thesis using True by (simp add: hex_digits.simps [of n])
  next
    case False
    show ?thesis
    proof (cases k)
      case 0
      then show ?thesis using False by (simp add: hex_digits.simps [of n])
    next
      case (Suc j)
      then have "16 ^ j * 16 \<le> n" using "1.prems" by (simp add: mult.commute)
      then have "16 ^ j \<le> n div 16" by (simp add: less_eq_div_iff_mult_less_eq)
      then have "j < length (hex_digits (n div 16))"
        using "1.IH" [OF False] by simp
      then show ?thesis using False Suc by (simp add: hex_digits.simps [of n])
    qed
  qed
qed

lemma show_hex8_width:
  "(length (show_hex8 w) = 8) = (unat w < 2 ^ 32)"
proof (cases "unat w < 2 ^ 32")
  case True
  then have "unat w < 16 ^ 8" by simp
  then have "length (hex_digits (unat w)) \<le> 8"
    by (intro length_hex_digits_le) simp_all
  then show ?thesis using True by (simp add: show_hex8_def setw_setfill_def)
next
  case False
  then have "16 ^ 8 \<le> unat w" by simp
  then have "8 < length (hex_digits (unat w))" by (rule length_hex_digits_gt)
  then show ?thesis using False by (simp add: show_hex8_def setw_setfill_def)
qed

lemma show_hex8_width32: "length (show_hex8 (w :: 32 word)) = 8"
proof -
  have "unat w < 2 ^ LENGTH(32)" by (rule unsigned_less)
  then show ?thesis by (simp add: show_hex8_width)
qed

section \<open>Evaluating the written text\<close>

text \<open>
  Facts that let the simplifier run the examples.
\<close>

lemma upt2: "[0..<2] = [0, 1]"
  by (simp add: upt_rec)

lemma upt10: "[0..<10] = [0, 1, 2, 3, 4, 5, 6, 7, 8, 9]"
  by (simp add: upt_rec)

lemma digit_chars:
  "char_of (48::nat) = CHR ''0''" "char_of (49::nat) = CHR ''1''" "char_of (50::nat) = CHR ''2''"
  "char_of (51::nat) = CHR ''3''" "char_of (52::nat) = CHR ''4''" "char_of (53::nat) = CHR ''5''"
  "char_of (54::nat) = CHR ''6''" "char_of (55::nat) = CHR ''7''" "char_of (56::nat) = CHR ''8''"
  "char_of (57::nat) = CHR ''9''"
  by code_simp+

lemma replicate7: "replicate 7 c = [c, c, c, c, c, c, c]"
  by (simp add: numeral_eq_Suc)

lemma hex_1: "show_hex8 (1 :: 64 word) = ''00000001''"
  by (simp add: show_hex8_def setw_setfill_def hex_digits.simps hex_digit_def digit_chars replicate7)

lemma hex_2p32: "show_hex8 (4294967296 :: 64 word) = ''100000000''"
  by (simp add: show_hex8_def setw_setfill_def hex_digits.simps hex_digit_def digit_chars)

lemma dec_1: "show_dec 1 = ''1''"
  by (simp add: show_dec_def dec_digits.simps digit_chars)

lemma dec_2p32: "show_dec 4294967296 = ''4294967296''"
  by (simp add: show_dec_def dec_digits.simps digit_chars)

section \<open>The argument check of main\<close>

text \<open>
  The usage path is taken exactly when \<^verbatim>\<open>argc < 2\<close>, and standard error gets nothing but
  what the runtime writes when the run ends in an error.
\<close>

lemma main_usage:
  "length argv < 2 \<Longrightarrow>
     main e argv = \<lparr>std_cout = usage @ [endl], std_cerr = [], ended = Returned 1\<rparr>"
  by (simp add: main_def)

lemma main_std_cerr:
  "std_cerr (main e argv) =
     (case ended (main e argv) of Returned k \<Rightarrow> [] | Terminated err \<Rightarrow> uncaught e err)"
  by (simp add: main_def Let_def split: sum.splits)

lemma main_no_usage:
  "2 \<le> length argv \<Longrightarrow>
     ended (main e argv) \<noteq> Returned 1 \<and>
     take 21 (std_cout (main e argv)) = ''Size of Arrow table: ''"
  by (simp add: main_def Let_def split: sum.splits)

section \<open>The claims\<close>

text \<open>
  Claim C1. In the int64 generator, for \<open>num_values > 0\<close> and \<open>run_length > 0\<close> (a pool
  that holds the column and, with \<^verbatim>\<open>write_to_file\<close>, a buffer of at most \<open>2^31 - 1\<close> bytes,
  which the byte loop can count) the call returns a table, and every value \<open>v\<^sub>i\<close> of its
  column, read as the \<^verbatim>\<open>int64_t\<close> it is, satisfies \<open>0 \<le> v\<^sub>i < modulus(i)\<close>, where
  \<open>modulus(i)\<close> is the unsigned value of \<^verbatim>\<open>modulo\<close> in iteration \<open>i\<close>, a power of two
  \<open>2^x\<close> with \<open>x < 64\<close>. The value is the unsigned remainder of draw
  \<open>i + i div run_length + 1\<close> of the 64-bit generator by that modulus, also for
  \<open>x = 63\<close>, where \<^verbatim>\<open>modulo\<close> read as \<^verbatim>\<open>int64_t\<close> is negative (the witness runs that case).
\<close>

theorem values_below_modulus64:
  assumes n: "0 < num_values" and L: "0 < run_length"
    and c: "nat num_values \<le> pool_capacity e"
    and b: "w \<longrightarrow> 8 * num_values \<le> 2147483647"
  shows "\<exists>t. generate_int64_delta_varied_bit_width_table e num_values run_length w = Inr t \<and>
     (\<forall>i < nat num_values.
        0 \<le> sint (column t ! i) \<and>
        sint (column t ! i) < uint (snd (moduli t ! i)) \<and>
        column t ! i = gen e (i + i div nat run_length + 1) mod snd (moduli t ! i) \<and>
        (\<exists>x<64. uint (snd (moduli t ! i)) = 2 ^ x))"
proof -
  let ?t = "table_of w (after64 e (nat run_length) w (nat num_values))"
  have g: "generate_int64_delta_varied_bit_width_table e num_values run_length w = Inr ?t"
    by (rule generate64_ok [OF L c b])
  have "\<forall>i < nat num_values.
        0 \<le> sint (column ?t ! i) \<and>
        sint (column ?t ! i) < uint (snd (moduli ?t ! i)) \<and>
        column ?t ! i = gen e (i + i div nat run_length + 1) mod snd (moduli ?t ! i) \<and>
        (\<exists>x<64. uint (snd (moduli ?t ! i)) = 2 ^ x)"
  proof (intro allI impI)
    fix i assume i: "i < nat num_values"
    have col: "column ?t ! i = value_at64 e (nat run_length) i"
      using i by (simp add: table_of_def after64_def)
    have md: "snd (moduli ?t ! i) = modulus_at64 e (nat run_length) i"
      using i by (simp add: table_of_def after64_def)
    show "0 \<le> sint (column ?t ! i) \<and>
        sint (column ?t ! i) < uint (snd (moduli ?t ! i)) \<and>
        column ?t ! i = gen e (i + i div nat run_length + 1) mod snd (moduli ?t ! i) \<and>
        (\<exists>x<64. uint (snd (moduli ?t ! i)) = 2 ^ x)"
      unfolding col md
      using value_at64_range [of e "nat run_length" i] uint_modulus_at64 [of e "nat run_length" i]
      by (simp add: value_at64_def)
  qed
  with g show ?thesis by blast
qed

theorem values_below_modulus64_witness:
  "0 < (1::int) \<and> nat 1 \<le> pool_capacity (replay [63, 9223372036854775813] []) \<and>
   8 * (1::int) \<le> 2147483647 \<and>
   (\<exists>t. generate_int64_delta_varied_bit_width_table (replay [63, 9223372036854775813] []) 1 1 True = Inr t \<and>
     (\<forall>i < nat 1.
        0 \<le> sint (column t ! i) \<and>
        sint (column t ! i) < uint (snd (moduli t ! i)) \<and>
        column t ! i = gen (replay [63, 9223372036854775813] []) (i + i div nat 1 + 1) mod snd (moduli t ! i) \<and>
        (\<exists>x<64. uint (snd (moduli t ! i)) = 2 ^ x)))"
  using values_below_modulus64 [of 1 1 "replay [63, 9223372036854775813] []" True]
  by (simp add: replay_def)

text \<open>The run of the witness, evaluated: exponent 63, modulus \<open>2^63\<close>, value 5.\<close>

lemma boundary_exponent_example:
  "generate_int64_delta_varied_bit_width_table (replay [63, 9223372036854775813] []) 1 1 False =
     Inr \<lparr>column = [5], check_file = [], dec_file = [], hex_file = [],
          moduli = [(True, 9223372036854775808)]\<rparr> \<and>
   uint (9223372036854775808 :: 64 word) = 2 ^ 63 \<and>
   sint (9223372036854775808 :: 64 word) = - (2 ^ 63)"
  by (simp add: generate64_eq replay_def table_of_def after64_def value_at64_def modulus_at64_def
      gen_def draw_modulo64_def)

text \<open>
  The bound on the buffer is needed: from \<open>2^28\<close> values on, with \<^verbatim>\<open>write_to_file\<close>, the
  \<^verbatim>\<open>int\<close> counter of the byte loop cannot reach the size of the buffer.
\<close>

lemma byte_loop_cannot_count:
  assumes "run_length \<noteq> 0" and "nat num_values \<le> pool_capacity e" and "268435456 \<le> num_values"
  shows "generate_int64_delta_varied_bit_width_table e num_values run_length True =
     Inl IntegerOverflow"
  using assms by (simp add: generate64_eq)

text \<open>
  Claim C2. In the int64 generator with \<open>run_length > 0\<close> (a pool that holds the column
  and a buffer the byte loop can count, as for C1), iteration \<open>i\<close> assigns
  \<^verbatim>\<open>modulo\<close> exactly when \<open>i mod run_length = 0\<close>, so also at \<open>i = 0\<close>; it then takes a
  fresh draw of the generator (draw \<open>i + i div run_length\<close>); and between two
  consecutive positions of which the second does not start a run, \<^verbatim>\<open>modulo\<close> keeps
  its value.
\<close>

theorem modulus_drawn_at_run_starts:
  assumes L: "0 < run_length" and c: "nat num_values \<le> pool_capacity e"
    and b: "w \<longrightarrow> 8 * num_values \<le> 2147483647"
  shows "\<exists>t. generate_int64_delta_varied_bit_width_table e num_values run_length w = Inr t \<and>
     length (moduli t) = nat num_values \<and>
     (\<forall>i < nat num_values. fst (moduli t ! i) = (i mod nat run_length = 0)) \<and>
     (0 < num_values \<longrightarrow> fst (moduli t ! 0)) \<and>
     (\<forall>i < nat num_values. fst (moduli t ! i) \<longrightarrow>
        snd (moduli t ! i) = draw_modulo64 (gen e (i + i div nat run_length))) \<and>
     (\<forall>i. Suc i < nat num_values \<and> Suc i mod nat run_length \<noteq> 0 \<longrightarrow>
        snd (moduli t ! Suc i) = snd (moduli t ! i))"
proof -
  let ?N = "nat run_length"
  let ?t = "table_of w (after64 e ?N w (nat num_values))"
  have N: "0 < ?N" using L by simp
  have g: "generate_int64_delta_varied_bit_width_table e num_values run_length w = Inr ?t"
    by (rule generate64_ok [OF L c b])
  have 1: "length (moduli ?t) = nat num_values"
    by (simp add: moduli_after64)
  have 2: "\<forall>i < nat num_values. fst (moduli ?t ! i) = (i mod ?N = 0)"
    by (simp add: moduli_after64)
  have 3: "0 < num_values \<longrightarrow> fst (moduli ?t ! 0)"
    by (simp add: moduli_after64)
  have 4: "\<forall>i < nat num_values. fst (moduli ?t ! i) \<longrightarrow>
        snd (moduli ?t ! i) = draw_modulo64 (gen e (i + i div ?N))"
  proof (intro allI impI)
    fix i assume i: "i < nat num_values" and "fst (moduli ?t ! i)"
    then have "i mod ?N = 0" by (simp add: moduli_after64)
    then have "modulus_at64 e ?N i = draw_modulo64 (gen e (i + i div ?N))"
      by (simp only: modulus_at64_def run_start)
    then show "snd (moduli ?t ! i) = draw_modulo64 (gen e (i + i div ?N))"
      using i by (simp add: moduli_after64)
  qed
  have 5: "\<forall>i. Suc i < nat num_values \<and> Suc i mod ?N \<noteq> 0 \<longrightarrow>
        snd (moduli ?t ! Suc i) = snd (moduli ?t ! i)"
  proof (intro allI impI)
    fix i assume a: "Suc i < nat num_values \<and> Suc i mod ?N \<noteq> 0"
    then have "(Suc i - 1) div ?N = Suc i div ?N"
      using div_pred [OF N, of "Suc i"] by blast
    then have d: "Suc i div ?N = i div ?N" by simp
    have "modulus_at64 e ?N (Suc i) = modulus_at64 e ?N i"
      by (simp only: modulus_at64_def d)
    moreover have "i < nat num_values" using a by simp
    ultimately show "snd (moduli ?t ! Suc i) = snd (moduli ?t ! i)"
      using a by (simp add: moduli_after64)
  qed
  show ?thesis using g 1 2 3 4 5 by blast
qed

theorem modulus_drawn_at_run_starts_witness:
  "0 < (2::int) \<and> nat 3 \<le> pool_capacity (replay [1, 2, 3, 4, 5] []) \<and>
   8 * (3::int) \<le> 2147483647 \<and>
   (\<exists>t. generate_int64_delta_varied_bit_width_table (replay [1, 2, 3, 4, 5] []) 3 2 True = Inr t \<and>
     length (moduli t) = nat 3 \<and>
     (\<forall>i < nat 3. fst (moduli t ! i) = (i mod nat 2 = 0)) \<and>
     (0 < (3::int) \<longrightarrow> fst (moduli t ! 0)) \<and>
     (\<forall>i < nat 3. fst (moduli t ! i) \<longrightarrow>
        snd (moduli t ! i) = draw_modulo64 (gen (replay [1, 2, 3, 4, 5] []) (i + i div nat 2))) \<and>
     (\<forall>i. Suc i < nat 3 \<and> Suc i mod nat 2 \<noteq> 0 \<longrightarrow>
        snd (moduli t ! Suc i) = snd (moduli t ! i)))"
  using modulus_drawn_at_run_starts [of 2 3 "replay [1, 2, 3, 4, 5] []" True]
  by (simp add: replay_def)

text \<open>
  Claim C3. For \<open>num_values > 0\<close> and \<open>run_length > 0\<close> (a pool that holds the column
  and a buffer the byte loop can count, as for C1) the int64 generator returns a column of exactly \<open>num_values\<close> values, and it draws
  \<open>\<lceil>num_values / run_length\<rceil>\<close> moduli. With \<open>num_values = 10\<close>, \<open>run_length = 5\<close> it
  draws exactly two, at positions 0 and 5, the first (from draw 0) used on \<open>[0,5)\<close> and
  the second (from draw 6) on \<open>[5,10)\<close>; with \<open>num_values = 1\<close>, \<open>run_length = 1000\<close> it
  draws exactly one; with \<open>run_length > num_values\<close> it draws exactly one, at position 0,
  used on the whole column.
\<close>

theorem column_length:
  assumes n: "0 < num_values" and L: "0 < run_length"
    and c: "nat num_values \<le> pool_capacity e"
    and b: "w \<longrightarrow> 8 * num_values \<le> 2147483647"
  shows "\<exists>t. generate_int64_delta_varied_bit_width_table e num_values run_length w = Inr t \<and>
     length (column t) = nat num_values \<and>
     length (filter fst (moduli t)) = (nat num_values + nat run_length - 1) div nat run_length \<and>
     (num_values = 10 \<and> run_length = 5 \<longrightarrow>
        length (filter fst (moduli t)) = 2 \<and>
        map fst (moduli t) = [True, False, False, False, False, True, False, False, False, False] \<and>
        (\<forall>i < 5. snd (moduli t ! i) = draw_modulo64 (gen e 0)) \<and>
        (\<forall>i. 5 \<le> i \<and> i < 10 \<longrightarrow> snd (moduli t ! i) = draw_modulo64 (gen e 6))) \<and>
     (num_values = 1 \<and> run_length = 1000 \<longrightarrow>
        moduli t = [(True, draw_modulo64 (gen e 0))]) \<and>
     (num_values < run_length \<longrightarrow>
        length (filter fst (moduli t)) = 1 \<and>
        (\<forall>i < nat num_values. fst (moduli t ! i) = (i = 0) \<and>
            snd (moduli t ! i) = draw_modulo64 (gen e 0)))"
proof -
  let ?N = "nat run_length" and ?k = "nat num_values"
  let ?t = "table_of w (after64 e ?N w ?k)"
  have N: "0 < ?N" using L by simp
  have g: "generate_int64_delta_varied_bit_width_table e num_values run_length w = Inr ?t"
    by (rule generate64_ok [OF L c b])
  have 1: "length (column ?t) = ?k"
    by (simp add: column_after64)
  have 2: "length (filter fst (moduli ?t)) = (?k + ?N - 1) div ?N"
    by (simp only: drawn_after64 count_starts [OF N])
  have 3: "num_values = 10 \<and> run_length = 5 \<longrightarrow>
        length (filter fst (moduli ?t)) = 2 \<and>
        map fst (moduli ?t) = [True, False, False, False, False, True, False, False, False, False] \<and>
        (\<forall>i < 5. snd (moduli ?t ! i) = draw_modulo64 (gen e 0)) \<and>
        (\<forall>i. 5 \<le> i \<and> i < 10 \<longrightarrow> snd (moduli ?t ! i) = draw_modulo64 (gen e 6))"
  proof (intro impI)
    assume a: "num_values = 10 \<and> run_length = 5"
    have m: "moduli ?t = map (\<lambda>i. (i mod 5 = 0, modulus_at64 e 5 i)) [0..<10]"
      using a by (simp add: moduli_after64)
    have f: "map fst (moduli ?t) = [True, False, False, False, False, True, False, False, False, False]"
      unfolding m upt10 by simp
    have l: "length (filter fst (moduli ?t)) = 2"
      unfolding m upt10 by simp
    have lo: "\<forall>i < 5. snd (moduli ?t ! i) = draw_modulo64 (gen e 0)"
      unfolding m by (simp add: modulus_at64_def)
    have hi: "\<forall>i. 5 \<le> i \<and> i < 10 \<longrightarrow> snd (moduli ?t ! i) = draw_modulo64 (gen e 6)"
    proof (intro allI impI)
      fix i :: nat assume i: "5 \<le> i \<and> i < 10"
      then have "i div 5 = 1" by presburger
      then show "snd (moduli ?t ! i) = draw_modulo64 (gen e 6)"
        unfolding m using i by (simp add: modulus_at64_def)
    qed
    show "length (filter fst (moduli ?t)) = 2 \<and>
        map fst (moduli ?t) = [True, False, False, False, False, True, False, False, False, False] \<and>
        (\<forall>i < 5. snd (moduli ?t ! i) = draw_modulo64 (gen e 0)) \<and>
        (\<forall>i. 5 \<le> i \<and> i < 10 \<longrightarrow> snd (moduli ?t ! i) = draw_modulo64 (gen e 6))"
      by (intro conjI) (rule f l lo hi)+
  qed
  have 4: "num_values = 1 \<and> run_length = 1000 \<longrightarrow>
        moduli ?t = [(True, draw_modulo64 (gen e 0))]"
    by (simp add: moduli_after64 modulus_at64_def)
  have 5: "num_values < run_length \<longrightarrow>
        length (filter fst (moduli ?t)) = 1 \<and>
        (\<forall>i < ?k. fst (moduli ?t ! i) = (i = 0) \<and>
            snd (moduli ?t ! i) = draw_modulo64 (gen e 0))"
  proof (intro impI)
    assume a: "num_values < run_length"
    then have kN: "?k < ?N" using n by simp
    have k0: "0 < ?k" using n by simp
    have "?N \<le> ?k + ?N - 1" and "?k + ?N - 1 < 2 * ?N" using kN k0 by linarith+
    then have "(?k + ?N - 1) div ?N = 1"
      using N by (intro div_nat_eqI) simp_all
    then have x: "length (filter fst (moduli ?t)) = 1" using 2 by simp
    have y: "\<forall>i < ?k. fst (moduli ?t ! i) = (i = 0) \<and>
            snd (moduli ?t ! i) = draw_modulo64 (gen e 0)"
    proof (intro allI impI)
      fix i assume i: "i < ?k"
      have iN: "i < ?N" by (rule less_trans [OF i kN])
      then have "i div ?N = 0" and "(i mod ?N = 0) = (i = 0)" by simp_all
      then show "fst (moduli ?t ! i) = (i = 0) \<and> snd (moduli ?t ! i) = draw_modulo64 (gen e 0)"
        using i by (simp add: moduli_after64 modulus_at64_def)
    qed
    show "length (filter fst (moduli ?t)) = 1 \<and>
        (\<forall>i < ?k. fst (moduli ?t ! i) = (i = 0) \<and>
            snd (moduli ?t ! i) = draw_modulo64 (gen e 0))"
      by (intro conjI) (rule x y)+
  qed
  show ?thesis
    by (intro exI [of _ ?t] conjI) (rule g 1 2 3 4 5)+
qed

theorem column_length_witness:
  "0 < (10::int) \<and> 0 < (5::int) \<and>
   nat 10 \<le> pool_capacity (replay [3, 1, 4, 1, 5, 9, 2, 6, 5, 3, 5, 8] []) \<and>
   8 * (10::int) \<le> 2147483647 \<and>
   (\<exists>t. generate_int64_delta_varied_bit_width_table
            (replay [3, 1, 4, 1, 5, 9, 2, 6, 5, 3, 5, 8] []) 10 5 True = Inr t \<and>
        length (column t) = 10 \<and>
        length (filter fst (moduli t)) = 2 \<and>
        map fst (moduli t) = [True, False, False, False, False, True, False, False, False, False])"
proof -
  obtain t where
    "generate_int64_delta_varied_bit_width_table
       (replay [3, 1, 4, 1, 5, 9, 2, 6, 5, 3, 5, 8] []) 10 5 True = Inr t"
    "length (column t) = nat 10"
    "length (filter fst (moduli t)) = 2"
    "map fst (moduli t) = [True, False, False, False, False, True, False, False, False, False]"
    using column_length [of 10 5 "replay [3, 1, 4, 1, 5, 9, 2, 6, 5, 3, 5, 8] []" True]
    by (auto simp add: replay_def)
  then show ?thesis by (simp add: replay_def)
qed

text \<open>
  Claim C7. With \<^verbatim>\<open>write_to_file\<close> true, when the decimal sidecar file opens and takes
  every write (the source checks neither) and the call returns (\<open>run_length > 0\<close>, a pool
  that holds the column, a buffer the byte loop can count), reading the file
  \<^verbatim>\<open>delta_varied_int64array.dec\<close> back line by line gives exactly the values of the
  column, as the \<^verbatim>\<open>int64_t\<close> they are, in the same order.
\<close>

theorem dec_sidecar_round_trip:
  assumes L: "0 < run_length" and c: "nat num_values \<le> pool_capacity e"
    and b: "8 * num_values \<le> 2147483647"
    and o: "ofstream e ''delta_varied_int64array.dec'' = TakesAll"
  shows "\<exists>t f. generate_int64_delta_varied_bit_width_table e num_values run_length True = Inr t \<and>
     dec_on_disk (files_int64 e True t) = Some f \<and>
     parse_dec_file f = map (\<lambda>v. Some (sint v)) (column t)"
proof -
  let ?N = "nat run_length" and ?k = "nat num_values"
  let ?t = "table_of True (after64 e ?N True ?k)"
  have b': "True \<longrightarrow> 8 * num_values \<le> 2147483647" using b by simp
  have g: "generate_int64_delta_varied_bit_width_table e num_values run_length True = Inr ?t"
    by (rule generate64_ok [OF L c b'])
  have f: "dec_on_disk (files_int64 e True ?t) = Some (dec_file ?t)"
    by (simp add: files_int64_def sidecar_def on_disk_def o)
  have d: "dec_file ?t = concat (map (\<lambda>v. show_dec (sint v) @ [endl]) (column ?t))"
    by (simp add: table_of_def after64_def comp_def)
  have "read_lines [] (dec_file ?t) = map (\<lambda>v. show_dec (sint v)) (column ?t)"
    unfolding d by (rule read_lines_concat) (rule show_dec_no_endl)
  then have p: "parse_dec_file (dec_file ?t) = map (\<lambda>v. Some (sint v)) (column ?t)"
    by (simp add: parse_dec_file_def parse_show_dec comp_def)
  show ?thesis
    by (intro exI [of _ ?t] exI [of _ "dec_file ?t"] conjI) (rule g f p)+
qed

theorem dec_sidecar_round_trip_witness:
  "0 < (2::int) \<and> nat 3 \<le> pool_capacity (replay [10, 700, 33, 5, 12345] []) \<and>
   8 * (3::int) \<le> 2147483647 \<and>
   ofstream (replay [10, 700, 33, 5, 12345] []) ''delta_varied_int64array.dec'' = TakesAll \<and>
   (\<exists>t f. generate_int64_delta_varied_bit_width_table (replay [10, 700, 33, 5, 12345] []) 3 2 True = Inr t \<and>
        dec_on_disk (files_int64 (replay [10, 700, 33, 5, 12345] []) True t) = Some f \<and>
        parse_dec_file f = map (\<lambda>v. Some (sint v)) (column t))"
  using dec_sidecar_round_trip [of 2 3 "replay [10, 700, 33, 5, 12345] []"]
  by (simp add: replay_def)

text \<open>
  The hypothesis on the file is needed: the streams are opened and written unchecked, so
  the call returns the same table whatever happens to them, while a file that did not
  open is not there and a file that stopped taking writes holds a prefix of the lines.
\<close>

lemma streams_are_not_checked:
  "generate_int64_delta_varied_bit_width_table (e\<lparr>ofstream := f\<rparr>) num_values run_length w =
   generate_int64_delta_varied_bit_width_table e num_values run_length w"
proof (cases "run_length = 0")
  case True
  then show ?thesis by (simp add: generate64_zero)
next
  case False
  have "after64 (e\<lparr>ofstream := f\<rparr>) (nat \<bar>run_length\<bar>) w (nat num_values) =
        after64 e (nat \<bar>run_length\<bar>) w (nat num_values)"
    by (rule after64_cong) (simp add: gen_def fun_eq_iff)
  then show ?thesis
    by (simp add: generate64_eq [OF False])
qed

lemma dec_file_not_opened:
  "ofstream e ''delta_varied_int64array.dec'' = CannotOpen \<Longrightarrow>
     dec_on_disk (files_int64 e True t) = None"
  by (simp add: files_int64_def sidecar_def on_disk_def)

lemma dec_file_cut_short:
  "ofstream e ''delta_varied_int64array.dec'' = TakesUpTo n \<Longrightarrow>
     dec_on_disk (files_int64 e True t) = Some (take n (dec_file t))"
  by (simp add: files_int64_def sidecar_def on_disk_def)

lemma dec_file_cut_short_example:
  "parse_dec_file (take 3 (''12'' @ [endl] @ ''345'' @ [endl])) = [Some 12] \<and>
   parse_dec_file (take 5 (''12'' @ [endl] @ ''345'' @ [endl])) = [Some 12, Some 34]"
  by (simp add: parse_dec_file_def parse_dec_def digit_value_def endl_def)

text \<open>
  Claim C6. The int64 generator is a function of \<^verbatim>\<open>num_values\<close>, \<^verbatim>\<open>run_length\<close>,
  \<^verbatim>\<open>write_to_file\<close> and the seed: two runs whose seeds (the values
  \<^verbatim>\<open>std::random_device{}()\<close> returned) are equal return the same table and send the
  same to their three streams, or end in the same error, whatever else differs between
  the two environments (the state of \<^verbatim>\<open>rand()\<close>, the files, the size of the pool as long
  as the column fits).
\<close>

theorem same_seed_same_table:
  assumes seed: "random_device e1 = random_device e2"
    and engine: "mt19937_64 e1 = mt19937_64 e2"
    and c1: "nat num_values \<le> pool_capacity e1" and c2: "nat num_values \<le> pool_capacity e2"
  shows "generate_int64_delta_varied_bit_width_table e1 num_values run_length w =
         generate_int64_delta_varied_bit_width_table e2 num_values run_length w"
proof (cases "run_length = 0")
  case True
  then show ?thesis by (simp add: generate64_zero)
next
  case False
  have "after64 e1 (nat \<bar>run_length\<bar>) w (nat num_values) =
        after64 e2 (nat \<bar>run_length\<bar>) w (nat num_values)"
    by (rule after64_cong [OF gen_cong [OF seed engine]])
  then show ?thesis
    using c1 c2 by (simp add: generate64_eq [OF False])
qed

theorem same_seed_same_table_witness:
  "random_device (seeded 40) = random_device ((seeded 40)\<lparr>rand := \<lambda>k. 1, pool_capacity := 5\<rparr>) \<and>
   mt19937_64 (seeded 40) = mt19937_64 ((seeded 40)\<lparr>rand := \<lambda>k. 1, pool_capacity := 5\<rparr>) \<and>
   nat 2 \<le> pool_capacity (seeded 40) \<and>
   nat 2 \<le> pool_capacity ((seeded 40)\<lparr>rand := \<lambda>k. 1, pool_capacity := 5\<rparr>) \<and>
   generate_int64_delta_varied_bit_width_table (seeded 40) 2 3 True =
   generate_int64_delta_varied_bit_width_table
     ((seeded 40)\<lparr>rand := \<lambda>k. 1, pool_capacity := 5\<rparr>) 2 3 True"
  using same_seed_same_table
    [of "seeded 40" "(seeded 40)\<lparr>rand := \<lambda>k. 1, pool_capacity := 5\<rparr>" 2 3 True]
  by (simp add: seeded_def replay_def)

text \<open>
  And the seed is what the table depends on: with another seed the same call returns
  another table.
\<close>

lemma other_seed_other_table:
  "generate_int64_delta_varied_bit_width_table (seeded 40) 1 1 False =
     Inr \<lparr>column = [41], check_file = [], dec_file = [], hex_file = [], moduli = [(True, 2 ^ 40)]\<rparr> \<and>
   generate_int64_delta_varied_bit_width_table (seeded 41) 1 1 False =
     Inr \<lparr>column = [42], check_file = [], dec_file = [], hex_file = [], moduli = [(True, 2 ^ 41)]\<rparr>"
  by (simp add: generate64_eq seeded_def replay_def table_of_def after64_def value_at64_def
      modulus_at64_def gen_def draw_modulo64_def)

text \<open>
  Claim C4. Every modulus drawn is a power of two \<open>2^x\<close>: the value of
  \<^verbatim>\<open>1ULL << (gen() % 64)\<close> is \<open>2^x\<close> with \<open>x = draw mod 64 < 64\<close>, between \<open>2^0\<close> and
  \<open>2^63\<close>, and the value of \<^verbatim>\<open>1U << (rand() % 32)\<close> is \<open>2^x\<close> with \<open>x = draw mod 32 < 32\<close>,
  between \<open>2^0\<close> and \<open>2^31\<close> (the values of the unsigned expressions; the variable that
  stores them keeps their bits, see \<open>modulo_sign_at_top_exponent\<close>). The exponent
  is uniform over its range when the draw is uniform over its own: of the \<open>2^64\<close> values
  of a 64-bit draw exactly \<open>2^58\<close> give each of the 64 exponents, and of the \<open>2^31\<close>
  values of \<^verbatim>\<open>rand()\<close> exactly \<open>2^26\<close> give each of the 32. Every modulus in the log of a
  run of either generator is drawn this way.
\<close>

theorem moduli_are_powers_of_two:
  "(\<exists>x<64. x = unat d mod 64 \<and> draw_modulo64 d = 2 ^ x \<and> unat (draw_modulo64 d) = 2 ^ x) \<and>
   1 \<le> unat (draw_modulo64 d) \<and> unat (draw_modulo64 d) \<le> 2 ^ 63 \<and>
   (\<forall>x<64. card {d'. draw_modulo64 d' = 2 ^ x} = 2 ^ 58) \<and>
   (\<exists>x<32. x = unat r mod 32 \<and> draw_modulo32 r = 2 ^ x \<and> unat (draw_modulo32 r) = 2 ^ x) \<and>
   1 \<le> unat (draw_modulo32 r) \<and> unat (draw_modulo32 r) \<le> 2 ^ 31 \<and>
   (\<forall>x<32. card {r'. draw_modulo32 r' = 2 ^ x} = 2 ^ 26) \<and>
   (\<forall>t. generate_int64_delta_varied_bit_width_table e n L w = Inr t \<longrightarrow>
      (\<forall>i < length (moduli t). \<exists>k. snd (moduli t ! i) = draw_modulo64 (gen e k))) \<and>
   (\<forall>t c'. generate_int32_delta_varied_bit_width_table e c n L w = Inr (t, c') \<longrightarrow>
      (\<forall>i < length (moduli t). \<exists>k. snd (moduli t ! i) = draw_modulo32 (rand e k)))"
proof (intro conjI)
  show "\<exists>x<64. x = unat d mod 64 \<and> draw_modulo64 d = 2 ^ x \<and> unat (draw_modulo64 d) = 2 ^ x"
    by (simp add: draw_modulo64_pow [symmetric] unat_draw_modulo64)
  show "1 \<le> unat (draw_modulo64 d)"
    by (simp add: unat_draw_modulo64)
  show "unat (draw_modulo64 d) \<le> 2 ^ 63"
    unfolding unat_draw_modulo64 by (rule pow2_le_63) simp
  show "\<forall>x<64. card {d'. draw_modulo64 d' = 2 ^ x} = 2 ^ 58"
    by (intro allI impI) (rule exponents64_uniform)
  show "\<exists>x<32. x = unat r mod 32 \<and> draw_modulo32 r = 2 ^ x \<and> unat (draw_modulo32 r) = 2 ^ x"
    by (simp add: draw_modulo32_pow [symmetric] unat_draw_modulo32)
  show "1 \<le> unat (draw_modulo32 r)"
    by (simp add: unat_draw_modulo32)
  show "unat (draw_modulo32 r) \<le> 2 ^ 31"
    unfolding unat_draw_modulo32 by (rule pow2_le_31) simp
  show "\<forall>x<32. card {r'. draw_modulo32 r' = 2 ^ x} = 2 ^ 26"
    by (intro allI impI) (rule exponents32_uniform)
  show "\<forall>t. generate_int64_delta_varied_bit_width_table e n L w = Inr t \<longrightarrow>
      (\<forall>i < length (moduli t). \<exists>k. snd (moduli t ! i) = draw_modulo64 (gen e k))"
    by (intro allI impI) (rule moduli_of_generate64)
  show "\<forall>t c'. generate_int32_delta_varied_bit_width_table e c n L w = Inr (t, c') \<longrightarrow>
      (\<forall>i < length (moduli t). \<exists>k. snd (moduli t ! i) = draw_modulo32 (rand e k))"
    by (intro allI impI) (rule moduli_of_generate32)
qed

theorem moduli_are_powers_of_two_witness:
  "draw_modulo64 63 = 2 ^ 63 \<and> unat (draw_modulo64 63) = 2 ^ 63 \<and>
   card {d'. draw_modulo64 d' = 2 ^ 63} = 2 ^ 58 \<and>
   draw_modulo32 31 = 2 ^ 31 \<and> unat (draw_modulo32 31) = 2 ^ 31 \<and>
   card {r'. draw_modulo32 r' = 2 ^ 31} = 2 ^ 26 \<and>
   generate_int64_delta_varied_bit_width_table (replay [63, 5] [31, 5]) 1 1 False =
     Inr \<lparr>column = [5], check_file = [], dec_file = [], hex_file = [],
          moduli = [(True, draw_modulo64 (gen (replay [63, 5] [31, 5]) 0))]\<rparr> \<and>
   generate_int32_delta_varied_bit_width_table (replay [63, 5] [31, 5]) 0 1 1 False =
     Inr (\<lparr>column = [5], check_file = [], dec_file = [], hex_file = [],
           moduli = [(True, draw_modulo32 (rand (replay [63, 5] [31, 5]) 0))]\<rparr>, 2)"
proof -
  note T = moduli_are_powers_of_two [of 63 31 "replay [63, 5] [31, 5]" 1 1 False 0]
  have p64: "\<exists>x<64. x = unat (63 :: 64 word) mod 64 \<and> draw_modulo64 63 = 2 ^ x \<and>
      unat (draw_modulo64 63) = 2 ^ x"
    using T by (elim conjE) assumption
  have p32: "\<exists>x<32. x = unat (31 :: 31 word) mod 32 \<and> draw_modulo32 31 = 2 ^ x \<and>
      unat (draw_modulo32 31) = 2 ^ x"
    using T by (elim conjE) assumption
  have u64: "\<forall>x<64. card {d'. draw_modulo64 d' = 2 ^ x} = 2 ^ 58"
    using T by (elim conjE) assumption
  have u32: "\<forall>x<32. card {r'. draw_modulo32 r' = 2 ^ x} = 2 ^ 26"
    using T by (elim conjE) assumption
  have c: "draw_modulo64 63 = 2 ^ 63" "unat (draw_modulo64 63) = 2 ^ 63"
       "draw_modulo32 31 = 2 ^ 31" "unat (draw_modulo32 31) = 2 ^ 31"
    using p64 p32 by simp_all
  have d: "card {d'. draw_modulo64 d' = 2 ^ 63} = 2 ^ 58"
       "card {r'. draw_modulo32 r' = 2 ^ 31} = 2 ^ 26"
    using u64 [rule_format, of 63] u32 [rule_format, of 31] by simp_all
  have g64: "generate_int64_delta_varied_bit_width_table (replay [63, 5] [31, 5]) 1 1 False =
     Inr \<lparr>column = [5], check_file = [], dec_file = [], hex_file = [],
          moduli = [(True, draw_modulo64 (gen (replay [63, 5] [31, 5]) 0))]\<rparr>"
    by (simp add: generate64_eq replay_def table_of_def after64_def value_at64_def modulus_at64_def
        gen_def draw_modulo64_def)
  have g32: "generate_int32_delta_varied_bit_width_table (replay [63, 5] [31, 5]) 0 1 1 False =
     Inr (\<lparr>column = [5], check_file = [], dec_file = [], hex_file = [],
           moduli = [(True, draw_modulo32 (rand (replay [63, 5] [31, 5]) 0))]\<rparr>, 2)"
    by (simp add: generate32_eq replay_def table_of_def after32_def value_at32_def modulus_at32_def
        draw_modulo32_def smod_int_alt_def)
  show ?thesis
    by (intro conjI) (rule c d g64 g32)+
qed

text \<open>
  Claim C5, as stated, fails: the claim has both variable-bit-width generators draw
  from a 64-bit generator, the 32-bit one narrowing the draw. The 32-bit generator calls
  \<^verbatim>\<open>rand()\<close> and never the 64-bit generator: with one and the same 64-bit generator,
  two results of \<^verbatim>\<open>rand()\<close> give two columns.
\<close>

theorem int32_values_not_from_gen64_counterexample:
  "gen (replay [] [5, 7]) = gen (replay [] [5, 9]) \<and>
   generate_int32_delta_varied_bit_width_table (replay [] [5, 7]) 0 1 1 False =
     Inr (\<lparr>column = [7], check_file = [], dec_file = [], hex_file = [],
           moduli = [(True, 32)]\<rparr>, 2) \<and>
   generate_int32_delta_varied_bit_width_table (replay [] [5, 9]) 0 1 1 False =
     Inr (\<lparr>column = [9], check_file = [], dec_file = [], hex_file = [],
           moduli = [(True, 32)]\<rparr>, 2)"
proof -
  have "gen (replay [] [5, 7]) = gen (replay [] [5, 9])"
    by (rule ext) (simp add: gen_def replay_def)
  moreover have "generate_int32_delta_varied_bit_width_table (replay [] [5, 7]) 0 1 1 False =
     Inr (\<lparr>column = [7], check_file = [], dec_file = [], hex_file = [],
           moduli = [(True, 32)]\<rparr>, 2)"
    by (simp add: generate32_eq replay_def table_of_def after32_def value_at32_def modulus_at32_def
        draw_modulo32_def smod_int_alt_def)
  moreover have "generate_int32_delta_varied_bit_width_table (replay [] [5, 9]) 0 1 1 False =
     Inr (\<lparr>column = [9], check_file = [], dec_file = [], hex_file = [],
           moduli = [(True, 32)]\<rparr>, 2)"
    by (simp add: generate32_eq replay_def table_of_def after32_def value_at32_def modulus_at32_def
        draw_modulo32_def smod_int_alt_def)
  ultimately show ?thesis by (intro conjI)
qed

text \<open>
  Claim C5, amended (where a call returns: \<open>run_length > 0\<close>, a pool that holds the
  column, a buffer the byte loop can count). The 64-bit generator draws every value from the 64-bit engine
  (\<^verbatim>\<open>gen() % modulo\<close>, unsigned) and its result depends on the environment through that
  engine only. The 32-bit generator draws every modulus and value from \<^verbatim>\<open>rand()\<close>, a
  non-negative \<^verbatim>\<open>int\<close>: the value is the \<^verbatim>\<open>int\<close> remainder \<^verbatim>\<open>rand() % modulo\<close>, which is
  the remainder of \<^verbatim>\<open>rand()\<close> by the unsigned value of \<^verbatim>\<open>modulo\<close>; its result depends on
  the environment through \<^verbatim>\<open>rand()\<close> only, and nothing is narrowed.
\<close>

theorem value_sources:
  assumes L: "0 < run_length" and c: "nat num_values \<le> pool_capacity e"
  shows "((w \<longrightarrow> 8 * num_values \<le> 2147483647) \<longrightarrow>
       (\<exists>t. generate_int64_delta_varied_bit_width_table e num_values run_length w = Inr t \<and>
          (\<forall>i < nat num_values.
             column t ! i = gen e (i + i div nat run_length + 1) mod snd (moduli t ! i)))) \<and>
     ((w \<longrightarrow> 4 * num_values \<le> 2147483647) \<longrightarrow>
       (\<exists>t r'. generate_int32_delta_varied_bit_width_table e r num_values run_length w = Inr (t, r') \<and>
          (\<forall>i < nat num_values.
             column t ! i =
               word_of_int (uint (rand e (r + i + i div nat run_length + 1)) smod sint (snd (moduli t ! i))) \<and>
             sint (column t ! i) =
               uint (rand e (r + i + i div nat run_length + 1)) mod uint (snd (moduli t ! i))))) \<and>
     (\<forall>e' :: env. rand e' = rand e \<and> nat num_values \<le> pool_capacity e' \<longrightarrow>
        generate_int32_delta_varied_bit_width_table e' r num_values run_length w =
        generate_int32_delta_varied_bit_width_table e r num_values run_length w) \<and>
     (\<forall>e' :: env. gen e' = gen e \<and> nat num_values \<le> pool_capacity e' \<longrightarrow>
        generate_int64_delta_varied_bit_width_table e' num_values run_length w =
        generate_int64_delta_varied_bit_width_table e num_values run_length w)"
proof -
  let ?N = "nat run_length" and ?k = "nat num_values"
  let ?t = "table_of w (after64 e ?N w ?k)" and ?u = "table_of w (after32 e r ?N w ?k)"
  have L0: "run_length \<noteq> 0" and La: "nat \<bar>run_length\<bar> = ?N" using L by simp_all
  have v64: "\<forall>i < ?k. column ?t ! i = gen e (i + i div ?N + 1) mod snd (moduli ?t ! i)"
    by (simp add: column_after64 moduli_after64 value_at64_def)
  have v32: "\<forall>i < ?k.
           column ?u ! i =
             word_of_int (uint (rand e (r + i + i div ?N + 1)) smod sint (snd (moduli ?u ! i))) \<and>
           sint (column ?u ! i) =
             uint (rand e (r + i + i div ?N + 1)) mod uint (snd (moduli ?u ! i))"
    by (simp add: column_after32 moduli_after32 sint_value_at32 uint_modulus_at32)
       (simp add: value_at32_def)
  have A: "(w \<longrightarrow> 8 * num_values \<le> 2147483647) \<longrightarrow>
       (\<exists>t. generate_int64_delta_varied_bit_width_table e num_values run_length w = Inr t \<and>
          (\<forall>i < nat num_values.
             column t ! i = gen e (i + i div nat run_length + 1) mod snd (moduli t ! i)))"
  proof (intro impI)
    assume b: "w \<longrightarrow> 8 * num_values \<le> 2147483647"
    have g64: "generate_int64_delta_varied_bit_width_table e num_values run_length w = Inr ?t"
      by (rule generate64_ok [OF L c b])
    show "\<exists>t. generate_int64_delta_varied_bit_width_table e num_values run_length w = Inr t \<and>
          (\<forall>i < nat num_values.
             column t ! i = gen e (i + i div nat run_length + 1) mod snd (moduli t ! i))"
      by (intro exI [of _ ?t] conjI) (rule g64 v64)+
  qed
  have B: "(w \<longrightarrow> 4 * num_values \<le> 2147483647) \<longrightarrow>
       (\<exists>t r'. generate_int32_delta_varied_bit_width_table e r num_values run_length w = Inr (t, r') \<and>
          (\<forall>i < nat num_values.
             column t ! i =
               word_of_int (uint (rand e (r + i + i div nat run_length + 1)) smod sint (snd (moduli t ! i))) \<and>
             sint (column t ! i) =
               uint (rand e (r + i + i div nat run_length + 1)) mod uint (snd (moduli t ! i))))"
  proof (intro impI)
    assume b: "w \<longrightarrow> 4 * num_values \<le> 2147483647"
    have g32: "generate_int32_delta_varied_bit_width_table e r num_values run_length w =
        Inr (?u, calls (after32 e r ?N w ?k))"
      by (rule generate32_ok [OF L c b])
    show "\<exists>t r'. generate_int32_delta_varied_bit_width_table e r num_values run_length w = Inr (t, r') \<and>
          (\<forall>i < nat num_values.
             column t ! i =
               word_of_int (uint (rand e (r + i + i div nat run_length + 1)) smod sint (snd (moduli t ! i))) \<and>
             sint (column t ! i) =
               uint (rand e (r + i + i div nat run_length + 1)) mod uint (snd (moduli t ! i)))"
      by (intro exI [of _ ?u] exI [of _ "calls (after32 e r ?N w ?k)"] conjI) (rule g32 v32)+
  qed
  have C: "\<forall>e' :: env. rand e' = rand e \<and> nat num_values \<le> pool_capacity e' \<longrightarrow>
        generate_int32_delta_varied_bit_width_table e' r num_values run_length w =
        generate_int32_delta_varied_bit_width_table e r num_values run_length w"
  proof (intro allI impI)
    fix e' :: env assume a: "rand e' = rand e \<and> nat num_values \<le> pool_capacity e'"
    then have "after32 e' r ?N w ?k = after32 e r ?N w ?k"
      by (intro after32_cong) simp
    then show "generate_int32_delta_varied_bit_width_table e' r num_values run_length w =
        generate_int32_delta_varied_bit_width_table e r num_values run_length w"
      using a c by (simp add: generate32_eq [OF L0] La)
  qed
  have D: "\<forall>e' :: env. gen e' = gen e \<and> nat num_values \<le> pool_capacity e' \<longrightarrow>
        generate_int64_delta_varied_bit_width_table e' num_values run_length w =
        generate_int64_delta_varied_bit_width_table e num_values run_length w"
  proof (intro allI impI)
    fix e' :: env assume a: "gen e' = gen e \<and> nat num_values \<le> pool_capacity e'"
    then have "after64 e' ?N w ?k = after64 e ?N w ?k"
      by (intro after64_cong) simp
    then show "generate_int64_delta_varied_bit_width_table e' num_values run_length w =
        generate_int64_delta_varied_bit_width_table e num_values run_length w"
      using a c by (simp add: generate64_eq [OF L0] La)
  qed
  show ?thesis
    by (intro conjI) (rule A B C D)+
qed

theorem value_sources_witness:
  "0 < (2::int) \<and> nat 3 \<le> pool_capacity (replay [4, 8, 15, 16, 23] [42, 7, 9, 3, 1]) \<and>
   8 * (3::int) \<le> 2147483647 \<and> 4 * (3::int) \<le> 2147483647 \<and>
   (\<exists>t. generate_int64_delta_varied_bit_width_table
           (replay [4, 8, 15, 16, 23] [42, 7, 9, 3, 1]) 3 2 True = Inr t) \<and>
   (\<exists>t r'. generate_int32_delta_varied_bit_width_table
           (replay [4, 8, 15, 16, 23] [42, 7, 9, 3, 1]) 0 3 2 True = Inr (t, r'))"
proof -
  note T = value_sources [of 2 3 "replay [4, 8, 15, 16, 23] [42, 7, 9, 3, 1]" True 0]
  have c: "nat 3 \<le> pool_capacity (replay [4, 8, 15, 16, 23] [42, 7, 9, 3, 1])"
    by (simp add: replay_def)
  have p: "0 < (2::int)" by simp
  have b8: "True \<longrightarrow> 8 * (3::int) \<le> 2147483647" and b4: "True \<longrightarrow> 4 * (3::int) \<le> 2147483647"
    and n8: "8 * (3::int) \<le> 2147483647" and n4: "4 * (3::int) \<le> 2147483647"
    by simp_all
  have A: "(True \<longrightarrow> 8 * (3::int) \<le> 2147483647) \<longrightarrow>
      (\<exists>t. generate_int64_delta_varied_bit_width_table
             (replay [4, 8, 15, 16, 23] [42, 7, 9, 3, 1]) 3 2 True = Inr t \<and>
          (\<forall>i < nat 3.
             column t ! i =
               gen (replay [4, 8, 15, 16, 23] [42, 7, 9, 3, 1]) (i + i div nat 2 + 1) mod
               snd (moduli t ! i)))"
    using T [OF p c] by (elim conjE) assumption
  have B: "(True \<longrightarrow> 4 * (3::int) \<le> 2147483647) \<longrightarrow>
      (\<exists>t r'. generate_int32_delta_varied_bit_width_table
             (replay [4, 8, 15, 16, 23] [42, 7, 9, 3, 1]) 0 3 2 True = Inr (t, r') \<and>
          (\<forall>i < nat 3.
             column t ! i =
               word_of_int (uint (rand (replay [4, 8, 15, 16, 23] [42, 7, 9, 3, 1]) (0 + i + i div nat 2 + 1))
                 smod sint (snd (moduli t ! i))) \<and>
             sint (column t ! i) =
               uint (rand (replay [4, 8, 15, 16, 23] [42, 7, 9, 3, 1]) (0 + i + i div nat 2 + 1)) mod
               uint (snd (moduli t ! i))))"
    using T [OF p c] by (elim conjE) assumption
  obtain t where a: "generate_int64_delta_varied_bit_width_table
           (replay [4, 8, 15, 16, 23] [42, 7, 9, 3, 1]) 3 2 True = Inr t"
    using A [THEN mp, OF b8] by (elim conjE exE) (erule that)
  obtain u r' where b: "generate_int32_delta_varied_bit_width_table
           (replay [4, 8, 15, 16, 23] [42, 7, 9, 3, 1]) 0 3 2 True = Inr (u, r')"
    using B [THEN mp, OF b4] by (elim conjE exE) (erule that)
  show ?thesis
    by (intro conjI exI) (rule p c n8 n4 a b)+
qed

text \<open>
  Claim C8 is not met by the int64 generator. The claim: every line of the hexadecimal
  sidecar file is the value in hexadecimal, filled with zeros to one width common to all
  lines. \<^verbatim>\<open>std::setw(8)\<close> is a minimum width and an \<^verbatim>\<open>int64_t\<close> has up to 16 digits: with
  the draws 40, 1 and \<open>2^32\<close> the two values 1 and \<open>2^32\<close> are written as a line of 8 and
  a line of 9 characters. (By \<open>show_hex8_width\<close> a line has 8 characters exactly when
  the value is below \<open>2^32\<close>; by \<open>show_hex8_width32\<close> every line of the int32
  generator has.)
\<close>

theorem hex_lines_of_two_widths:
  "generate_int64_delta_varied_bit_width_table (replay [40, 1, 4294967296] []) 2 2 True =
     Inr \<lparr>column = [1, 4294967296],
          check_file = [1, 0, 0, 0, 0, 0, 0, 0, 0, 0, 0, 0, 1, 0, 0, 0],
          dec_file = ''1'' @ [endl] @ ''4294967296'' @ [endl],
          hex_file = ''00000001'' @ [endl] @ ''100000000'' @ [endl],
          moduli = [(True, 2 ^ 40), (False, 2 ^ 40)]\<rparr> \<and>
   read_lines [] (''00000001'' @ [endl] @ ''100000000'' @ [endl]) = [''00000001'', ''100000000''] \<and>
   length ''00000001'' = 8 \<and> length ''100000000'' = 9"
proof -
  have v: "value_at64 (replay [40, 1, 4294967296] []) 2 0 = 1"
     "value_at64 (replay [40, 1, 4294967296] []) 2 (Suc 0) = 4294967296"
     "modulus_at64 (replay [40, 1, 4294967296] []) 2 0 = 2 ^ 40"
     "modulus_at64 (replay [40, 1, 4294967296] []) 2 (Suc 0) = 2 ^ 40"
    by (simp_all add: value_at64_def modulus_at64_def gen_def replay_def draw_modulo64_def)
  have b: "buffer_bytes (1 :: 64 word) = [1, 0, 0, 0, 0, 0, 0, 0]"
     "buffer_bytes (4294967296 :: 64 word) = [0, 0, 0, 0, 1, 0, 0, 0]"
    by (simp_all add: buffer_bytes_def upt_rec drop_bit_eq_div)
  have c: "nat 2 \<le> pool_capacity (replay [40, 1, 4294967296] [])"
    by (simp add: replay_def)
  have "generate_int64_delta_varied_bit_width_table (replay [40, 1, 4294967296] []) 2 2 True =
      Inr (table_of True (after64 (replay [40, 1, 4294967296] []) (nat 2) True (nat 2)))"
    using c by (intro generate64_ok) simp_all
  moreover have "table_of True (after64 (replay [40, 1, 4294967296] []) (nat 2) True (nat 2)) =
      \<lparr>column = [1, 4294967296],
          check_file = [1, 0, 0, 0, 0, 0, 0, 0, 0, 0, 0, 0, 1, 0, 0, 0],
          dec_file = ''1'' @ [endl] @ ''4294967296'' @ [endl],
          hex_file = ''00000001'' @ [endl] @ ''100000000'' @ [endl],
          moduli = [(True, 2 ^ 40), (False, 2 ^ 40)]\<rparr>"
    by (simp add: table_of_def array_buffer_def after64_def upt2 v b hex_1 hex_2p32 dec_1 dec_2p32)
  moreover have "read_lines [] (''00000001'' @ [endl] @ ''100000000'' @ [endl]) = [''00000001'', ''100000000'']"
    by (simp add: endl_def)
  ultimately show ?thesis by simp
qed

text \<open>
  Claim C9 is not met by \<^verbatim>\<open>main\<close>. The claim: with fewer than 2 arguments
  (\<^verbatim>\<open>argc < 2\<close>) the program prints the usage message, to standard error, and exits
  with status 1; with the required argument it does not take that path. The message is
  written to \<^verbatim>\<open>std::cout\<close> and nothing to \<^verbatim>\<open>std::cerr\<close>; the rest holds (in general by
  \<open>main_usage\<close> and \<open>main_no_usage\<close>; by \<open>main_std_cerr\<close> the program writes nothing
  to standard error on any path that returns, and what is there after an uncaught
  exception is the message of the runtime).
\<close>

theorem usage_goes_to_std_cout:
  "main (replay [] []) [''prelim''] =
     \<lparr>std_cout = ''Usage: prelim num_values [iterations] [modulo]'' @ [endl],
      std_cerr = [], ended = Returned 1\<rparr> \<and>
   main (replay [3, 9] []) [''prelim'', ''1''] =
     \<lparr>std_cout = ''Size of Arrow table: 1 values.'' @ [endl] @
                 ''Finished Arrow table generation.'' @ [endl] @
                 ''Starting Parquet file writing.'' @ [endl],
      std_cerr = [], ended = Returned 0\<rparr>"
proof -
  have a: "atoi (replay [3, 9] []) ''1'' = 1"
    by (simp add: replay_def c_atoi_def digits_value_def digit_value_def is_space_def)
  have c: "nat 1 \<le> pool_capacity (replay [3, 9] [])" by (simp add: replay_def)
  have g: "generate_int64_delta_varied_bit_width_table (replay [3, 9] []) 1 256 False =
      Inr (table_of False (after64 (replay [3, 9] []) (nat 256) False (nat 1)))"
    using c by (intro generate64_ok) simp_all
  have w: "WriteTable (replay [3, 9] []) x" for x by (simp add: replay_def)
  show ?thesis
    by (simp add: main_def usage_def a g w dec_1 Let_def)
qed

text \<open>
  Claim C10. \<^verbatim>\<open>modulo\<close> starts at 0, and a remainder by it then would be undefined; but
  for \<open>run_length > 0\<close> neither generator ever computes a remainder by zero, whatever
  else ends the call: with \<open>num_values \<ge> 1\<close>, where the call returns (a pool that holds the
  column, a buffer the byte loop can count), the first iteration assigns \<^verbatim>\<open>modulo\<close> before
  the first remainder, and every value \<^verbatim>\<open>modulo\<close> takes in an iteration is a power of two
  and not zero.
\<close>

theorem remainder_never_by_zero:
  assumes L: "0 < run_length"
  shows "modulo (init c :: 64 word locals) = 0 \<and> modulo (init c :: 32 word locals) = 0 \<and>
     emit64 e (init c) = Inl DivisionByZero \<and> emit32 e (init c) = Inl DivisionByZero \<and>
     generate_int64_delta_varied_bit_width_table e num_values run_length w \<noteq> Inl DivisionByZero \<and>
     generate_int32_delta_varied_bit_width_table e c num_values run_length w \<noteq> Inl DivisionByZero \<and>
     (1 \<le> num_values \<and> nat num_values \<le> pool_capacity e \<longrightarrow>
        ((w \<longrightarrow> 8 * num_values \<le> 2147483647) \<longrightarrow>
         (\<exists>t. generate_int64_delta_varied_bit_width_table e num_values run_length w = Inr t \<and>
             fst (moduli t ! 0) \<and>
             (\<forall>i < nat num_values. snd (moduli t ! i) \<noteq> 0 \<and> (\<exists>x<64. snd (moduli t ! i) = 2 ^ x)))) \<and>
        ((w \<longrightarrow> 4 * num_values \<le> 2147483647) \<longrightarrow>
         (\<exists>t c'. generate_int32_delta_varied_bit_width_table e c num_values run_length w = Inr (t, c') \<and>
             fst (moduli t ! 0) \<and>
             (\<forall>i < nat num_values. snd (moduli t ! i) \<noteq> 0 \<and> (\<exists>x<32. snd (moduli t ! i) = 2 ^ x)))))"
proof -
  let ?N = "nat run_length" and ?k = "nat num_values"
  have L0: "run_length \<noteq> 0" using L by simp
  have 1: "modulo (init c :: 64 word locals) = 0" "modulo (init c :: 32 word locals) = 0"
    by (simp_all add: init_def)
  have 2: "emit64 e (init c) = Inl DivisionByZero" "emit32 e (init c) = Inl DivisionByZero"
    by (simp_all add: emit64_def emit32_def init_def)
  have 3: "generate_int64_delta_varied_bit_width_table e num_values run_length w \<noteq> Inl DivisionByZero"
    by (rule generate64_no_division_by_zero [OF L0])
  have 4: "generate_int32_delta_varied_bit_width_table e c num_values run_length w \<noteq> Inl DivisionByZero"
    by (rule generate32_no_division_by_zero [OF L0])
  have 5: "1 \<le> num_values \<and> nat num_values \<le> pool_capacity e \<longrightarrow>
        ((w \<longrightarrow> 8 * num_values \<le> 2147483647) \<longrightarrow>
         (\<exists>t. generate_int64_delta_varied_bit_width_table e num_values run_length w = Inr t \<and>
             fst (moduli t ! 0) \<and>
             (\<forall>i < nat num_values. snd (moduli t ! i) \<noteq> 0 \<and> (\<exists>x<64. snd (moduli t ! i) = 2 ^ x)))) \<and>
        ((w \<longrightarrow> 4 * num_values \<le> 2147483647) \<longrightarrow>
         (\<exists>t c'. generate_int32_delta_varied_bit_width_table e c num_values run_length w = Inr (t, c') \<and>
             fst (moduli t ! 0) \<and>
             (\<forall>i < nat num_values. snd (moduli t ! i) \<noteq> 0 \<and> (\<exists>x<32. snd (moduli t ! i) = 2 ^ x))))"
  proof -
    have A: "\<exists>t. generate_int64_delta_varied_bit_width_table e num_values run_length w = Inr t \<and>
             fst (moduli t ! 0) \<and>
             (\<forall>i < nat num_values. snd (moduli t ! i) \<noteq> 0 \<and> (\<exists>x<64. snd (moduli t ! i) = 2 ^ x))"
      if k: "0 < ?k" and cap: "?k \<le> pool_capacity e" and b: "w \<longrightarrow> 8 * num_values \<le> 2147483647"
    proof -
      let ?t = "table_of w (after64 e ?N w ?k)"
      have g64: "generate_int64_delta_varied_bit_width_table e num_values run_length w = Inr ?t"
        by (rule generate64_ok [OF L cap b])
      have f64: "fst (moduli ?t ! 0)" using k by (simp add: moduli_after64)
      have m64: "\<forall>i < ?k. snd (moduli ?t ! i) \<noteq> 0 \<and> (\<exists>x<64. snd (moduli ?t ! i) = 2 ^ x)"
      proof (intro allI impI)
        fix i assume i: "i < ?k"
        let ?d = "gen e (i div ?N * (?N + 1))"
        have "unat ?d mod 64 < 64" by simp
        then have "\<exists>x<64. draw_modulo64 ?d = 2 ^ x"
          using draw_modulo64_pow [of ?d] by blast
        then show "snd (moduli ?t ! i) \<noteq> 0 \<and> (\<exists>x<64. snd (moduli ?t ! i) = 2 ^ x)"
          using i by (simp add: moduli_after64 modulus_at64_def draw_modulo64_nonzero)
      qed
      show ?thesis
        by (intro exI [of _ ?t] conjI) (rule g64 f64 m64)+
    qed
    have B: "\<exists>t c'. generate_int32_delta_varied_bit_width_table e c num_values run_length w = Inr (t, c') \<and>
             fst (moduli t ! 0) \<and>
             (\<forall>i < nat num_values. snd (moduli t ! i) \<noteq> 0 \<and> (\<exists>x<32. snd (moduli t ! i) = 2 ^ x))"
      if k: "0 < ?k" and cap: "?k \<le> pool_capacity e" and b: "w \<longrightarrow> 4 * num_values \<le> 2147483647"
    proof -
      let ?u = "table_of w (after32 e c ?N w ?k)"
      have g32: "generate_int32_delta_varied_bit_width_table e c num_values run_length w =
          Inr (?u, calls (after32 e c ?N w ?k))"
        by (rule generate32_ok [OF L cap b])
      have f32: "fst (moduli ?u ! 0)" using k by (simp add: moduli_after32)
      have m32: "\<forall>i < ?k. snd (moduli ?u ! i) \<noteq> 0 \<and> (\<exists>x<32. snd (moduli ?u ! i) = 2 ^ x)"
      proof (intro allI impI)
        fix i assume i: "i < ?k"
        let ?d = "rand e (c + i div ?N * (?N + 1))"
        have "unat ?d mod 32 < 32" by simp
        then have "\<exists>x<32. draw_modulo32 ?d = 2 ^ x"
          using draw_modulo32_pow [of ?d] by blast
        then show "snd (moduli ?u ! i) \<noteq> 0 \<and> (\<exists>x<32. snd (moduli ?u ! i) = 2 ^ x)"
          using i by (simp add: moduli_after32 modulus_at32_def draw_modulo32_nonzero)
      qed
      show ?thesis
        by (intro exI [of _ ?u] exI [of _ "calls (after32 e c ?N w ?k)"] conjI) (rule g32 f32 m32)+
    qed
    show ?thesis
    proof (intro impI conjI)
      assume a: "1 \<le> num_values \<and> nat num_values \<le> pool_capacity e"
        and b: "w \<longrightarrow> 8 * num_values \<le> 2147483647"
      from a have "0 < ?k" and "?k \<le> pool_capacity e" by simp_all
      then show "\<exists>t. generate_int64_delta_varied_bit_width_table e num_values run_length w = Inr t \<and>
             fst (moduli t ! 0) \<and>
             (\<forall>i < nat num_values. snd (moduli t ! i) \<noteq> 0 \<and> (\<exists>x<64. snd (moduli t ! i) = 2 ^ x))"
        using b by (rule A)
    next
      assume a: "1 \<le> num_values \<and> nat num_values \<le> pool_capacity e"
        and b: "w \<longrightarrow> 4 * num_values \<le> 2147483647"
      from a have "0 < ?k" and "?k \<le> pool_capacity e" by simp_all
      then show "\<exists>t c'. generate_int32_delta_varied_bit_width_table e c num_values run_length w = Inr (t, c') \<and>
             fst (moduli t ! 0) \<and>
             (\<forall>i < nat num_values. snd (moduli t ! i) \<noteq> 0 \<and> (\<exists>x<32. snd (moduli t ! i) = 2 ^ x))"
        using b by (rule B)
    qed
  qed
  show ?thesis
    by (intro conjI) (rule 1 2 3 4 5)+
qed

theorem remainder_never_by_zero_witness:
  "0 < (3::int) \<and>
   emit64 (replay [5, 9, 4] [5, 9, 4]) (init 0) = Inl DivisionByZero \<and>
   emit32 (replay [5, 9, 4] [5, 9, 4]) (init 0) = Inl DivisionByZero \<and>
   generate_int64_delta_varied_bit_width_table (replay [5, 9, 4] [5, 9, 4]) 2 3 True \<noteq> Inl DivisionByZero \<and>
   generate_int32_delta_varied_bit_width_table (replay [5, 9, 4] [5, 9, 4]) 0 2 3 True \<noteq> Inl DivisionByZero \<and>
   (1 \<le> (2::int) \<and> nat 2 \<le> pool_capacity (replay [5, 9, 4] [5, 9, 4])) \<and>
   8 * (2::int) \<le> 2147483647 \<and> 4 * (2::int) \<le> 2147483647 \<and>
   (\<exists>t. generate_int64_delta_varied_bit_width_table (replay [5, 9, 4] [5, 9, 4]) 2 3 True = Inr t \<and>
        fst (moduli t ! 0)) \<and>
   (\<exists>t c'. generate_int32_delta_varied_bit_width_table (replay [5, 9, 4] [5, 9, 4]) 0 2 3 True = Inr (t, c') \<and>
        fst (moduli t ! 0))"
proof -
  note T = remainder_never_by_zero [of 3 0 "replay [5, 9, 4] [5, 9, 4]" 2 True]
  have p: "0 < (3::int)" by simp
  have c: "1 \<le> (2::int) \<and> nat 2 \<le> pool_capacity (replay [5, 9, 4] [5, 9, 4])"
    by (simp add: replay_def)
  have b8: "True \<longrightarrow> 8 * (2::int) \<le> 2147483647" and b4: "True \<longrightarrow> 4 * (2::int) \<le> 2147483647"
    and n8: "8 * (2::int) \<le> 2147483647" and n4: "4 * (2::int) \<le> 2147483647"
    by simp_all
  have 1: "emit64 (replay [5, 9, 4] [5, 9, 4]) (init 0) = Inl DivisionByZero"
    using T [OF p] by (elim conjE) assumption
  have 2: "emit32 (replay [5, 9, 4] [5, 9, 4]) (init 0) = Inl DivisionByZero"
    using T [OF p] by (elim conjE) assumption
  have 3: "generate_int64_delta_varied_bit_width_table (replay [5, 9, 4] [5, 9, 4]) 2 3 True \<noteq> Inl DivisionByZero"
    using T [OF p] by (elim conjE) assumption
  have 4: "generate_int32_delta_varied_bit_width_table (replay [5, 9, 4] [5, 9, 4]) 0 2 3 True \<noteq> Inl DivisionByZero"
    using T [OF p] by (elim conjE) assumption
  have 5: "1 \<le> (2::int) \<and> nat 2 \<le> pool_capacity (replay [5, 9, 4] [5, 9, 4]) \<longrightarrow>
        ((True \<longrightarrow> 8 * (2::int) \<le> 2147483647) \<longrightarrow>
         (\<exists>t. generate_int64_delta_varied_bit_width_table (replay [5, 9, 4] [5, 9, 4]) 2 3 True = Inr t \<and>
             fst (moduli t ! 0) \<and>
             (\<forall>i < nat 2. snd (moduli t ! i) \<noteq> 0 \<and> (\<exists>x<64. snd (moduli t ! i) = 2 ^ x)))) \<and>
        ((True \<longrightarrow> 4 * (2::int) \<le> 2147483647) \<longrightarrow>
         (\<exists>t c'. generate_int32_delta_varied_bit_width_table (replay [5, 9, 4] [5, 9, 4]) 0 2 3 True = Inr (t, c') \<and>
             fst (moduli t ! 0) \<and>
             (\<forall>i < nat 2. snd (moduli t ! i) \<noteq> 0 \<and> (\<exists>x<32. snd (moduli t ! i) = 2 ^ x))))"
    using T [OF p] by (elim conjE) assumption
  note 6 = 5 [THEN mp, OF c, THEN conjunct1, THEN mp, OF b8]
    and 7 = 5 [THEN mp, OF c, THEN conjunct2, THEN mp, OF b4]
  obtain t where a: "generate_int64_delta_varied_bit_width_table (replay [5, 9, 4] [5, 9, 4]) 2 3 True = Inr t"
    "fst (moduli t ! 0)"
    using 6 by (elim conjE exE) (erule that)
  obtain u c' where b: "generate_int32_delta_varied_bit_width_table (replay [5, 9, 4] [5, 9, 4]) 0 2 3 True = Inr (u, c')"
    "fst (moduli u ! 0)"
    using 7 by (elim conjE exE) (erule that)
  show ?thesis
    by (intro conjI exI) (rule p 1 2 3 4 c [THEN conjunct1] c [THEN conjunct2] n8 n4 a b)+
qed

end
